theory Spec2Isabelle
  imports Main
begin

section \<open>Data model\<close>

text \<open>
  The notebook on custom document loaders defines two pieces of code of its own:
  \<^verbatim>\<open>CustomDocumentLoader\<close> (a loader that reads a file line by line) and
  \<^verbatim>\<open>MyParser\<close> (a blob parser that does the same on a \<^verbatim>\<open>Blob\<close>).
  Both build \<^verbatim>\<open>Document\<close> objects whose metadata is a dictionary with the keys
  \<^verbatim>\<open>line_number\<close> (a Python int) and \<^verbatim>\<open>source\<close> (a string or \<^verbatim>\<open>None\<close>).

  Bytes are a \<^typ>\<open>string\<close> (a list of 8-bit characters), and a Python \<^verbatim>\<open>str\<close> is
  represented by the bytes of its UTF-8 encoding. Decoding well-formed bytes then leaves the
  representation unchanged, and decoding anything else fails.
\<close>

datatype pyval = PyNone | PyInt int | PyStr string

datatype error =
    FileNotFoundError
  | ModuleNotFoundError
  | UnicodeDecodeError
  | ValidationError
  | ValueError
  | SourceEnumerationError

text \<open>\<^verbatim>\<open>Document(page_content=..., metadata={...})\<close>; the dictionary keeps
  the order of its literal.\<close>

record document =
  page_content :: string
  metadata :: "(string \<times> pyval) list"

text \<open>
  Modelled from the spec: the \<^verbatim>\<open>Blob\<close> class is imported by the notebook
  (\<^verbatim>\<open>from langchain_core.document_loaders import BaseBlobParser, Blob\<close>), its
  declaration is not part of the notebook. The spec's data model gives a Blob an optional
  origin (read in the code as \<^verbatim>\<open>blob.source\<close>), a payload that is either an
  in-memory byte sequence or a reference to the bytes at the origin that is not read until
  requested, an encoding hint, an optional mime type and caller-supplied attributes.
\<close>

datatype payload = InMemory string | AtOrigin

record blob =
  source :: "string option"
  payload :: payload
  encoding :: string
  mimetype :: "string option"
  blob_metadata :: "(string \<times> pyval) list"

text \<open>The file system the code reads: a path has bytes or does not exist.\<close>

type_synonym filesystem = "string \<rightharpoonup> string"

text \<open>\<^verbatim>\<open>Blob(data=b"...")\<close> and \<^verbatim>\<open>Blob.from_path(path, metadata=...)\<close> as the
  notebook calls them; the notebook prints \<^verbatim>\<open>'utf-8'\<close> for \<^verbatim>\<open>blob.encoding\<close>.\<close>

definition from_data :: "string \<Rightarrow> blob" where
  "from_data bytes =
     \<lparr>source = None, payload = InMemory bytes, encoding = ''utf-8'',
      mimetype = None, blob_metadata = []\<rparr>"

definition from_path :: "string \<Rightarrow> (string \<times> pyval) list \<Rightarrow> blob" where
  "from_path path md =
     \<lparr>source = Some path, payload = AtOrigin, encoding = ''utf-8'',
      mimetype = None, blob_metadata = md\<rparr>"

text \<open>
  Modelled from the spec: \<^verbatim>\<open>blob.as_bytes_io()\<close> is a method of the imported
  \<^verbatim>\<open>Blob\<close>. An in-memory payload is handed out as it is; a deferred payload is read
  from the origin at this moment, and a failure to resolve it is the spec's
  SourceEnumerationError ("raised while listing or resolving a blob").
\<close>

definition as_bytes_io :: "filesystem \<Rightarrow> blob \<Rightarrow> error + string" where
  "as_bytes_io fs b =
     (case payload b of
        InMemory bytes \<Rightarrow> Inr bytes
      | AtOrigin \<Rightarrow>
          (case source b of
             None \<Rightarrow> Inl SourceEnumerationError
           | Some path \<Rightarrow>
               (case fs path of
                  None \<Rightarrow> Inl SourceEnumerationError
                | Some bytes \<Rightarrow> Inr bytes)))"

text \<open>A Python \<^verbatim>\<open>Optional[str]\<close> stored as a dictionary value.\<close>

fun opt_str :: "string option \<Rightarrow> pyval" where
  "opt_str None = PyNone"
| "opt_str (Some s) = PyStr s"

section \<open>Generators as event traces\<close>

text \<open>
  A generator function runs only while its consumer asks for the next item. Its run is
  the sequence of the things it does, in program order: it resolves a blob's payload, it
  opens a file, it hands a document to the consumer. The run ends normally (\<open>None\<close>) or
  with the exception that leaves the generator (\<open>Some e\<close>).
\<close>

datatype event = Resolve blob | Open string | Emit document

type_synonym run = "event list \<times> error option"

fun emitted :: "event list \<Rightarrow> document list" where
  "emitted [] = []"
| "emitted (Emit d # es) = d # emitted es"
| "emitted (_ # es) = emitted es"

fun resolved :: "event list \<Rightarrow> blob list" where
  "resolved [] = []"
| "resolved (Resolve b # es) = b # resolved es"
| "resolved (_ # es) = resolved es"

definition records :: "run \<Rightarrow> document list" where
  "records r = emitted (fst r)"

definition raised :: "run \<Rightarrow> error option" where
  "raised r = snd r"

text \<open>
  What has happened when the consumer has received \<open>n\<close> documents and asks for no
  more: the generator is suspended at its \<open>n\<close>-th \<^verbatim>\<open>yield\<close>, or has finished earlier.
\<close>

fun consume :: "nat \<Rightarrow> event list \<Rightarrow> event list" where
  "consume 0 es = []"
| "consume (Suc n) [] = []"
| "consume (Suc n) (Emit d # es) = Emit d # consume n es"
| "consume (Suc n) (e # es) = e # consume (Suc n) es"

section \<open>Reading lines\<close>

definition LF :: char where
  "LF = CHR 0x0A"

definition CR :: char where
  "CR = CHR 0x0D"

text \<open>\<^verbatim>\<open>readline()\<close> on a stream: the bytes up to and including the next line feed,
  or all that is left; the second component is the stream after the call.\<close>

fun readline :: "string \<Rightarrow> string \<times> string" where
  "readline [] = ([], [])"
| "readline (c # cs) =
     (if c = LF then ([c], cs)
      else (case readline cs of (line, rest) \<Rightarrow> (c # line, rest)))"

text \<open>\<^verbatim>\<open>for line in f\<close>: the iterator calls \<^verbatim>\<open>readline\<close> until it returns nothing.\<close>

function iter_lines :: "string \<Rightarrow> string list" where
  "iter_lines f =
     (let lr = readline f
      in if fst lr = [] then [] else fst lr # iter_lines (snd lr))"
  by pat_completeness auto
termination
proof (relation "measure length")
  show "wf (measure length)" by simp
next
  fix f :: string and lr
  assume lr: "lr = readline f" and line: "fst lr \<noteq> []"
  have le: "length (snd (readline g)) \<le> length g" for g
    by (induction g) (auto split: prod.splits)
  have "length (snd (readline f)) < length f"
  proof (cases f)
    case Nil
    with lr line show ?thesis by simp
  next
    case (Cons c cs)
    with le [of cs] show ?thesis by (auto split: prod.splits)
  qed
  with lr show "(snd lr, f) \<in> measure length" by simp
qed

declare iter_lines.simps [simp del]

section \<open>UTF-8\<close>

text \<open>
  The strict UTF-8 decoder accepts exactly the well-formed byte sequences: one byte below
  \<^verbatim>\<open>0x80\<close>; a lead byte \<^verbatim>\<open>0xC2..0xDF\<close> and one continuation byte \<^verbatim>\<open>0x80..0xBF\<close>; a
  lead byte \<^verbatim>\<open>0xE0..0xEF\<close> and two continuation bytes, the first of them restricted after
  \<^verbatim>\<open>0xE0\<close> (no overlong form) and \<^verbatim>\<open>0xED\<close> (no surrogate); a lead byte
  \<^verbatim>\<open>0xF0..0xF4\<close> and three continuation bytes, the first of them restricted after
  \<^verbatim>\<open>0xF0\<close> and \<^verbatim>\<open>0xF4\<close> (nothing above U+10FFFF).
\<close>

definition byte :: "char \<Rightarrow> nat" where
  "byte c = of_char c"

definition continuation :: "char \<Rightarrow> bool" where
  "continuation c \<longleftrightarrow> 0x80 \<le> byte c \<and> byte c \<le> 0xBF"

definition second_of_three :: "char \<Rightarrow> char \<Rightarrow> bool" where
  "second_of_three a b =
     (if byte a = 0xE0 then 0xA0 \<le> byte b \<and> byte b \<le> 0xBF
      else if byte a = 0xED then 0x80 \<le> byte b \<and> byte b \<le> 0x9F
      else continuation b)"

definition second_of_four :: "char \<Rightarrow> char \<Rightarrow> bool" where
  "second_of_four a b =
     (if byte a = 0xF0 then 0x90 \<le> byte b \<and> byte b \<le> 0xBF
      else if byte a = 0xF4 then 0x80 \<le> byte b \<and> byte b \<le> 0x8F
      else continuation b)"

fun valid_utf8 :: "string \<Rightarrow> bool" where
  "valid_utf8 [] = True"
| "valid_utf8 (a # cs) =
     (if byte a < 0x80 then valid_utf8 cs
      else if 0xC2 \<le> byte a \<and> byte a \<le> 0xDF then
        (case cs of
           b # cs' \<Rightarrow> continuation b \<and> valid_utf8 cs'
         | _ \<Rightarrow> False)
      else if 0xE0 \<le> byte a \<and> byte a \<le> 0xEF then
        (case cs of
           b # c # cs' \<Rightarrow> second_of_three a b \<and> continuation c \<and> valid_utf8 cs'
         | _ \<Rightarrow> False)
      else if 0xF0 \<le> byte a \<and> byte a \<le> 0xF4 then
        (case cs of
           b # c # d # cs' \<Rightarrow>
             second_of_four a b \<and> continuation c \<and> continuation d \<and> valid_utf8 cs'
         | _ \<Rightarrow> False)
      else False)"

text \<open>
  Modelled from the spec: the \<^verbatim>\<open>Document\<close> class is imported by the notebook
  (\<^verbatim>\<open>from langchain_core.documents import Document\<close>). The spec's Record has a text
  payload, and the notebook prints the contents of the parser's documents as text although
  the parser passes the \<^verbatim>\<open>bytes\<close> lines of the stream: constructing a document from
  bytes decodes them as UTF-8, and fails with a validation error, before anything is
  yielded, when they are not well-formed. A \<^verbatim>\<open>str\<close> is taken as it is.
\<close>

definition Document_from_bytes :: "string \<Rightarrow> (string \<times> pyval) list \<Rightarrow> error + document" where
  "Document_from_bytes line md =
     (if valid_utf8 line then Inr \<lparr>page_content = line, metadata = md\<rparr>
      else Inl ValidationError)"

section \<open>MyParser\<close>

text \<open>
  \<^verbatim>\<open>
  def lazy_parse(self, blob: Blob) -> Iterator[Document]:
      line_number = 0
      with blob.as_bytes_io() as f:
          for line in f:
              line_number += 1
              yield Document(
                  page_content=line,
                  metadata={"line_number": line_number, "source": blob.source},
              )
  \<close>
\<close>

fun lazy_parse_loop :: "blob \<Rightarrow> int \<Rightarrow> string list \<Rightarrow> run" where
  "lazy_parse_loop b line_number [] = ([], None)"
| "lazy_parse_loop b line_number (line # rest) =
     (let line_number = line_number + 1
      in case Document_from_bytes line
                [(''line_number'', PyInt line_number), (''source'', opt_str (source b))] of
           Inl e \<Rightarrow> ([], Some e)
         | Inr d \<Rightarrow>
             (case lazy_parse_loop b line_number rest of
                (es, r) \<Rightarrow> (Emit d # es, r)))"

definition lazy_parse :: "filesystem \<Rightarrow> blob \<Rightarrow> run" where
  "lazy_parse fs b =
     (case as_bytes_io fs b of
        Inl e \<Rightarrow> ([], Some e)
      | Inr f \<Rightarrow>
          (case lazy_parse_loop b 0 (iter_lines f) of
             (es, r) \<Rightarrow> (Resolve b # es, r)))"

section \<open>MyParser on an explicit store\<close>

text \<open>
  The same method, with the objects it works on made explicit. A stream is an object of
  the store with the bytes it has not handed out yet; \<^verbatim>\<open>readline()\<close> moves them on, and
  reading a closed stream is an error. What one call of \<^verbatim>\<open>lazy_parse\<close> leaves in the
  store is there when the next call starts.
\<close>

record store =
  streams :: "nat \<rightharpoonup> string"
  next_stream :: nat

text \<open>
  Modelled from the spec: what \<^verbatim>\<open>blob.as_bytes_io()\<close> hands to the \<^verbatim>\<open>with\<close> statement
  once the payload is resolved is a new stream over the payload's bytes, positioned at
  their start (a Blob is "read possibly multiple times; never mutated after construction").
\<close>

definition open_stream :: "string \<Rightarrow> store \<Rightarrow> nat \<times> store" where
  "open_stream bytes st =
     (next_stream st,
      st\<lparr>streams := (streams st)(next_stream st \<mapsto> bytes),
         next_stream := Suc (next_stream st)\<rparr>)"

definition stream_readline :: "nat \<Rightarrow> store \<Rightarrow> (error + string) \<times> store" where
  "stream_readline f st =
     (case streams st f of
        None \<Rightarrow> (Inl ValueError, st)
      | Some unread \<Rightarrow>
          (case readline unread of
             (line, rest) \<Rightarrow> (Inr line, st\<lparr>streams := (streams st)(f \<mapsto> rest)\<rparr>)))"

definition close_stream :: "nat \<Rightarrow> store \<Rightarrow> store" where
  "close_stream f st = st\<lparr>streams := (streams st)(f := None)\<rparr>"

text \<open>The loop \<^verbatim>\<open>for line in f\<close> with its body, on the stream \<open>f\<close> of the store.\<close>

function lazy_parse_steps :: "blob \<Rightarrow> nat \<Rightarrow> int \<Rightarrow> store \<Rightarrow> run \<times> store" where
  "lazy_parse_steps b f line_number st =
     (case stream_readline f st of
        (Inl e, st') \<Rightarrow> (([], Some e), st')
      | (Inr line, st') \<Rightarrow>
          if line = [] then (([], None), st')
          else
            (let line_number = line_number + 1
             in case Document_from_bytes line
                       [(''line_number'', PyInt line_number), (''source'', opt_str (source b))] of
                  Inl e \<Rightarrow> (([], Some e), st')
                | Inr d \<Rightarrow>
                    (case lazy_parse_steps b f line_number st' of
                       ((es, r), st'') \<Rightarrow> ((Emit d # es, r), st''))))"
  by pat_completeness auto
termination
proof (relation "measure (\<lambda>(b, f, n, st). case streams st f of None \<Rightarrow> 0 | Some unread \<Rightarrow> length unread)")
  show "wf (measure (\<lambda>(b, f, n, st). case streams st f of None \<Rightarrow> 0 | Some unread \<Rightarrow> length unread))"
    by simp
next
  fix b :: blob and f :: nat and line_number :: int and st st' :: store
    and x line n and d :: document
  assume read: "(x, st') = stream_readline f st" and x: "x = Inr line" and line: "line \<noteq> []"
  have le: "length (snd (readline g)) \<le> length g" for g
    by (induction g) (auto split: prod.splits)
  have less: "length (snd (readline g)) < length g" if "fst (readline g) \<noteq> []" for g
  proof (cases g)
    case Nil
    with that show ?thesis by simp
  next
    case (Cons c cs)
    with le [of cs] show ?thesis by (auto split: prod.splits)
  qed
  from read x obtain unread where u: "streams st f = Some unread"
    and l: "line = fst (readline unread)"
    and s: "st' = st\<lparr>streams := (streams st)(f \<mapsto> snd (readline unread))\<rparr>"
    by (auto simp: stream_readline_def split: option.splits prod.splits)
  from less [of unread] line l have "length (snd (readline unread)) < length unread" by simp
  with u s show "((b, f, n, st'), (b, f, line_number, st)) \<in>
      measure (\<lambda>(b, f, n, st). case streams st f of None \<Rightarrow> 0 | Some unread \<Rightarrow> length unread)"
    by simp
qed

declare lazy_parse_steps.simps [simp del]

definition lazy_parse_store :: "filesystem \<Rightarrow> blob \<Rightarrow> store \<Rightarrow> run \<times> store" where
  "lazy_parse_store fs b st =
     (case as_bytes_io fs b of
        Inl e \<Rightarrow> (([], Some e), st)
      | Inr bytes \<Rightarrow>
          (case open_stream bytes st of
             (f, st1) \<Rightarrow>
               (case lazy_parse_steps b f 0 st1 of
                  ((es, r), st2) \<Rightarrow> ((Resolve b # es, r), close_stream f st2))))"

section \<open>CustomDocumentLoader\<close>

text \<open>
  \<^verbatim>\<open>open(self.file_path, encoding="utf-8")\<close> opens the file in text mode, or raises when
  there is no such file. What is read from it is decoded as UTF-8, and the default
  \<^verbatim>\<open>newline=None\<close> gives universal newlines: a carriage return, alone or followed by a
  line feed, reaches the program as one line feed. The file is read in one piece, so bytes
  that are not well-formed raise at the first read, before the first line.
\<close>

fun universal_newlines :: "string \<Rightarrow> string" where
  "universal_newlines [] = []"
| "universal_newlines [c] = (if c = CR then [LF] else [c])"
| "universal_newlines (c # d # cs) =
     (if c = CR \<and> d = LF then LF # universal_newlines cs
      else if c = CR then LF # universal_newlines (d # cs)
      else c # universal_newlines (d # cs))"

definition open_text :: "filesystem \<Rightarrow> string \<Rightarrow> error + string" where
  "open_text fs path =
     (case fs path of
        None \<Rightarrow> Inl FileNotFoundError
      | Some bytes \<Rightarrow> Inr bytes)"

definition read_text :: "string \<Rightarrow> error + string" where
  "read_text bytes =
     (if valid_utf8 bytes then Inr (universal_newlines bytes)
      else Inl UnicodeDecodeError)"

record custom_document_loader =
  file_path :: string

text \<open>
  \<^verbatim>\<open>
  def lazy_load(self) -> Iterator[Document]:
      with open(self.file_path, encoding="utf-8") as f:
          line_number = 0
          for line in f:
              yield Document(
                  page_content=line,
                  metadata={"line_number": line_number, "source": self.file_path},
              )
              line_number += 1
  \<close>
\<close>

fun lazy_load_loop :: "custom_document_loader \<Rightarrow> int \<Rightarrow> string list \<Rightarrow> event list" where
  "lazy_load_loop self line_number [] = []"
| "lazy_load_loop self line_number (line # rest) =
     Emit \<lparr>page_content = line,
           metadata = [(''line_number'', PyInt line_number),
                       (''source'', PyStr (file_path self))]\<rparr>
     # lazy_load_loop self (line_number + 1) rest"

definition lazy_load :: "filesystem \<Rightarrow> custom_document_loader \<Rightarrow> run" where
  "lazy_load fs self =
     (case open_text fs (file_path self) of
        Inl e \<Rightarrow> ([], Some e)
      | Inr bytes \<Rightarrow>
          (case read_text bytes of
             Inl e \<Rightarrow> ([Open (file_path self)], Some e)
           | Inr f \<Rightarrow>
               (Open (file_path self) # lazy_load_loop self 0 (iter_lines f), None)))"

text \<open>
  \<^verbatim>\<open>
  async def alazy_load(self) -> AsyncIterator[Document]:
      # Requires aiofiles
      # Install with `pip install aiofiles`
      import aiofiles

      async with aiofiles.open(self.file_path, encoding="utf-8") as f:
          line_number = 0
          async for line in f:
              yield Document(
                  page_content=line,
                  metadata={"line_number": line_number, "source": self.file_path},
              )
              line_number += 1
  \<close>
  The code requires the package \<^verbatim>\<open>aiofiles\<close>: the import is a statement of the body
  and raises where the package is not installed; the first argument of the model says
  whether it is. \<^verbatim>\<open>aiofiles.open\<close> hands its arguments to \<^verbatim>\<open>open\<close>, and
  \<^verbatim>\<open>async for\<close> awaits \<^verbatim>\<open>readline()\<close> until it returns nothing.
\<close>

fun alazy_load_loop :: "custom_document_loader \<Rightarrow> int \<Rightarrow> string list \<Rightarrow> event list" where
  "alazy_load_loop self line_number [] = []"
| "alazy_load_loop self line_number (line # rest) =
     Emit \<lparr>page_content = line,
           metadata = [(''line_number'', PyInt line_number),
                       (''source'', PyStr (file_path self))]\<rparr>
     # alazy_load_loop self (line_number + 1) rest"

definition alazy_load :: "bool \<Rightarrow> filesystem \<Rightarrow> custom_document_loader \<Rightarrow> run" where
  "alazy_load aiofiles fs self =
     (if \<not> aiofiles then ([], Some ModuleNotFoundError)
      else (case open_text fs (file_path self) of
              Inl e \<Rightarrow> ([], Some e)
            | Inr bytes \<Rightarrow>
                (case read_text bytes of
                   Inl e \<Rightarrow> ([Open (file_path self)], Some e)
                 | Inr f \<Rightarrow>
                     (Open (file_path self) # alazy_load_loop self 0 (iter_lines f), None))))"

section \<open>BaseLoader: the eager operations\<close>

text \<open>
  Modelled from the spec: \<^verbatim>\<open>BaseLoader.load\<close> and \<^verbatim>\<open>BaseLoader.aload\<close> are
  inherited from the imported base class. The notebook documents \<^verbatim>\<open>load\<close> as
  "it just invokes \<^verbatim>\<open>list(self.lazy_load())\<close>", the spec as "fully drain
  \<^verbatim>\<open>lazy_load()\<close>", with an asynchronous counterpart over \<^verbatim>\<open>alazy_load()\<close>.
  \<^verbatim>\<open>list\<close> asks the generator for one item after the other and appends each to the
  list it builds; an exception of the generator leaves \<^verbatim>\<open>list\<close> and no list is returned.
\<close>

fun py_list :: "document list \<Rightarrow> event list \<Rightarrow> error option \<Rightarrow> error + document list" where
  "py_list acc [] None = Inr acc"
| "py_list acc [] (Some e) = Inl e"
| "py_list acc (Emit d # es) ending = py_list (acc @ [d]) es ending"
| "py_list acc (_ # es) ending = py_list acc es ending"

text \<open>Modelled from the spec: \<^verbatim>\<open>load()\<close> of any loader, applied to the run of its
  \<^verbatim>\<open>lazy_load()\<close>.\<close>

definition load_run :: "run \<Rightarrow> error + document list" where
  "load_run r = py_list [] (fst r) (snd r)"

text \<open>Modelled from the spec: \<^verbatim>\<open>load()\<close> and \<^verbatim>\<open>aload()\<close> as
  \<^verbatim>\<open>CustomDocumentLoader\<close> inherits them.\<close>

definition load :: "filesystem \<Rightarrow> custom_document_loader \<Rightarrow> error + document list" where
  "load fs self = load_run (lazy_load fs self)"

definition aload :: "bool \<Rightarrow> filesystem \<Rightarrow> custom_document_loader \<Rightarrow> error + document list" where
  "aload aiofiles fs self = load_run (alazy_load aiofiles fs self)"

section \<open>GenericLoader\<close>

text \<open>
  Modelled from the spec: \<^verbatim>\<open>GenericLoader\<close> and the blob loaders are imported by the
  notebook, which only constructs them
  (\<^verbatim>\<open>GenericLoader(blob_loader=filesystem_blob_loader, blob_parser=parser)\<close>) and
  iterates \<^verbatim>\<open>lazy_load()\<close>. The spec: "for each Blob yielded by the held Source (in
  enumeration order), invokes the held Parser and re-yields every resulting Record in
  order"; "if the Source fails to enumerate, the failure propagates immediately and
  terminates the lazy sequence; if the Parser fails on one blob, that failure propagates and
  aborts the remaining iteration".

  A Source's enumeration is given by the list of the blobs it yields and the way it ends
  (normally, or with an error after the last blob it yielded); enumerating reads no
  payload ("must not read blob payloads eagerly during enumeration"), so it contributes no
  event of its own. A Parser is the run it makes on a blob.
\<close>

type_synonym parser = "blob \<Rightarrow> run"

fun generic_lazy_load :: "parser \<Rightarrow> blob list \<Rightarrow> error option \<Rightarrow> run" where
  "generic_lazy_load parse [] ending = ([], ending)"
| "generic_lazy_load parse (b # bs) ending =
     (case parse b of
        (es, Some e) \<Rightarrow> (es, Some e)
      | (es, None) \<Rightarrow>
          (case generic_lazy_load parse bs ending of
             (es', r) \<Rightarrow> (es @ es', r)))"

text \<open>Modelled from the spec: \<^verbatim>\<open>load()\<close> as \<^verbatim>\<open>GenericLoader\<close> inherits it.\<close>

definition generic_load :: "parser \<Rightarrow> blob list \<Rightarrow> error option \<Rightarrow> error + document list" where
  "generic_load parse bs ending = load_run (generic_lazy_load parse bs ending)"

text \<open>Reading a key of a metadata dictionary.\<close>

definition lookup :: "string \<Rightarrow> document \<Rightarrow> pyval option" where
  "lookup key d = map_of (metadata d) key"

section \<open>The notebook's test file\<close>

text \<open>
  The notebook writes three lines of text to \<^verbatim>\<open>./meow.txt\<close> in UTF-8 (the variable
  \<^verbatim>\<open>quality_content\<close>); the bytes are the ones it prints for \<^verbatim>\<open>blob.as_bytes()\<close>:
  \<^verbatim>\<open>b'meow meow\xf0\x9f\x90\xb1 \n meow meow\xf0\x9f\x90\xb1 \n meow\xf0\x9f\x98\xbb\xf0\x9f\x98\xbb'\<close>.
\<close>

definition quality_content :: string where
  "quality_content =
     ''meow meow'' @ [CHR 0xF0, CHR 0x9F, CHR 0x90, CHR 0xB1] @ '' \<newline>''
     @ '' meow meow'' @ [CHR 0xF0, CHR 0x9F, CHR 0x90, CHR 0xB1] @ '' \<newline>''
     @ '' meow'' @ [CHR 0xF0, CHR 0x9F, CHR 0x98, CHR 0xBB, CHR 0xF0, CHR 0x9F, CHR 0x98, CHR 0xBB]"

section \<open>Facts about reading lines\<close>

lemma readline_append: "fst (readline f) @ snd (readline f) = f"
  by (induction f) (auto split: prod.splits)

lemma readline_nonempty: "f \<noteq> [] \<Longrightarrow> fst (readline f) \<noteq> []"
  by (cases f) (auto split: prod.splits)

lemma readline_inner: "LF \<notin> set (butlast (fst (readline f)))"
  by (induction f) (auto split: prod.splits)

lemma readline_Nil_iff: "fst (readline f) = [] \<longleftrightarrow> f = []"
  by (cases f) (auto split: prod.splits)

lemma readline_terminated: "snd (readline f) \<noteq> [] \<Longrightarrow> last (fst (readline f)) = LF"
proof (induction f)
  case Nil
  then show ?case by simp
next
  case (Cons c cs)
  show ?case
  proof (cases "c = LF")
    case True
    then show ?thesis by simp
  next
    case False
    with Cons.prems have rest: "snd (readline cs) \<noteq> []" by (simp split: prod.splits)
    then have "cs \<noteq> []" by auto
    then have "fst (readline cs) \<noteq> []" by (simp add: readline_Nil_iff)
    with False Cons.IH [OF rest] show ?thesis by (auto split: prod.splits)
  qed
qed

lemma readline_count:
  "count_list f LF =
     (if fst (readline f) \<noteq> [] \<and> last (fst (readline f)) = LF then 1 else 0)
     + count_list (snd (readline f)) LF"
  by (induction f) (auto split: prod.splits)

lemma iter_lines_Nil [simp]: "iter_lines [] = []"
  by (simp add: iter_lines.simps)

lemma iter_lines_step:
  "f \<noteq> [] \<Longrightarrow> iter_lines f = fst (readline f) # iter_lines (snd (readline f))"
  by (subst iter_lines.simps) (simp add: readline_nonempty Let_def)

lemma iter_lines_empty_iff: "iter_lines f = [] \<longleftrightarrow> f = []"
  by (cases "f = []") (simp_all add: iter_lines_step)

lemma concat_iter_lines: "concat (iter_lines f) = f"
proof (induction f rule: iter_lines.induct)
  case (1 f)
  show ?case
  proof (cases "f = []")
    case True
    then show ?thesis by simp
  next
    case False
    then have "fst (readline f) \<noteq> []" by (rule readline_nonempty)
    with 1 have "concat (iter_lines (snd (readline f))) = snd (readline f)" by simp
    with False show ?thesis by (simp add: iter_lines_step readline_append)
  qed
qed

lemma iter_lines_shape:
  "l \<in> set (iter_lines f) \<Longrightarrow> l \<noteq> [] \<and> LF \<notin> set (butlast l)"
proof (induction f rule: iter_lines.induct)
  case (1 f)
  show ?case
  proof (cases "f = []")
    case True
    with 1 show ?thesis by simp
  next
    case False
    then have ne: "fst (readline f) \<noteq> []" by (rule readline_nonempty)
    from 1(2) False have "l = fst (readline f) \<or> l \<in> set (iter_lines (snd (readline f)))"
      by (simp add: iter_lines_step)
    then show ?thesis
    proof
      assume "l = fst (readline f)"
      with ne show ?thesis by (simp add: readline_inner)
    next
      assume "l \<in> set (iter_lines (snd (readline f)))"
      with 1(1) ne show ?thesis by simp
    qed
  qed
qed

lemma iter_lines_terminated:
  "Suc i < length (iter_lines f) \<Longrightarrow> last (iter_lines f ! i) = LF"
proof (induction f arbitrary: i rule: iter_lines.induct)
  case (1 f)
  show ?case
  proof (cases "f = []")
    case True
    with 1 show ?thesis by simp
  next
    case False
    then have ne: "fst (readline f) \<noteq> []" by (rule readline_nonempty)
    have step: "iter_lines f = fst (readline f) # iter_lines (snd (readline f))"
      using False by (rule iter_lines_step)
    show ?thesis
    proof (cases i)
      case 0
      with 1(2) step have "iter_lines (snd (readline f)) \<noteq> []" by auto
      then have "snd (readline f) \<noteq> []" by (simp add: iter_lines_empty_iff)
      then show ?thesis using 0 step by (simp add: readline_terminated)
    next
      case (Suc j)
      with 1(2) step have "Suc j < length (iter_lines (snd (readline f)))" by simp
      with 1(1) ne have "last (iter_lines (snd (readline f)) ! j) = LF" by simp
      with Suc step show ?thesis by simp
    qed
  qed
qed

lemma length_iter_lines:
  "length (iter_lines f) = count_list f LF + (if f \<noteq> [] \<and> last f \<noteq> LF then 1 else 0)"
proof (induction f rule: iter_lines.induct)
  case (1 f)
  show ?case
  proof (cases "f = []")
    case True
    then show ?thesis by simp
  next
    case False
    then have ne: "fst (readline f) \<noteq> []" by (rule readline_nonempty)
    have step: "iter_lines f = fst (readline f) # iter_lines (snd (readline f))"
      using False by (rule iter_lines_step)
    have IH: "length (iter_lines (snd (readline f))) =
        count_list (snd (readline f)) LF
        + (if snd (readline f) \<noteq> [] \<and> last (snd (readline f)) \<noteq> LF then 1 else 0)"
      using 1 ne by simp
    have f: "f = fst (readline f) @ snd (readline f)" by (simp add: readline_append)
    show ?thesis
    proof (cases "snd (readline f) = []")
      case True
      with f have "last f = last (fst (readline f))" by simp
      with True False ne step readline_count [of f] show ?thesis by simp
    next
      case rest: False
      then have "last (fst (readline f)) = LF" by (rule readline_terminated)
      moreover from rest f have "last f = last (snd (readline f))"
        by (metis last_appendR)
      ultimately show ?thesis
        using rest False ne step IH readline_count [of f] by simp
    qed
  qed
qed

section \<open>Facts about UTF-8\<close>

lemma byte_LF: "byte LF = 10"
  by (simp add: byte_def LF_def)

lemma continuation_not_LF: "continuation c \<Longrightarrow> c \<noteq> LF"
  by (auto simp: continuation_def byte_LF)

lemma second_of_three_high: "second_of_three a b \<Longrightarrow> 0x80 \<le> byte b"
  by (auto simp: second_of_three_def continuation_def split: if_splits)

lemma second_of_four_high: "second_of_four a b \<Longrightarrow> 0x80 \<le> byte b"
  by (auto simp: second_of_four_def continuation_def split: if_splits)

lemma readline_Cons_other:
  "c \<noteq> LF \<Longrightarrow> readline (c # cs) = (c # fst (readline cs), snd (readline cs))"
  by (simp split: prod.splits)

text \<open>A line feed is a character of its own in UTF-8, so cutting after it cuts no
  character in two.\<close>

lemma valid_utf8_readline:
  "valid_utf8 f \<Longrightarrow> valid_utf8 (fst (readline f)) \<and> valid_utf8 (snd (readline f))"
proof (induction f rule: valid_utf8.induct)
  case 1
  show ?case by simp
next
  case (2 a cs)
  consider (one) "byte a < 0x80"
    | (two) "\<not> byte a < 0x80" "0xC2 \<le> byte a \<and> byte a \<le> 0xDF"
    | (three) "\<not> byte a < 0x80" "\<not> (0xC2 \<le> byte a \<and> byte a \<le> 0xDF)"
        "0xE0 \<le> byte a \<and> byte a \<le> 0xEF"
    | (four) "\<not> byte a < 0x80" "\<not> (0xC2 \<le> byte a \<and> byte a \<le> 0xDF)"
        "\<not> (0xE0 \<le> byte a \<and> byte a \<le> 0xEF)" "0xF0 \<le> byte a \<and> byte a \<le> 0xF4"
    | (none) "\<not> byte a < 0x80" "\<not> (0xC2 \<le> byte a \<and> byte a \<le> 0xDF)"
        "\<not> (0xE0 \<le> byte a \<and> byte a \<le> 0xEF)" "\<not> (0xF0 \<le> byte a \<and> byte a \<le> 0xF4)"
    by blast
  then show ?case
  proof cases
    case one
    with "2.prems" have cs: "valid_utf8 cs" by simp
    show ?thesis
    proof (cases "a = LF")
      case True
      with one cs show ?thesis by simp
    next
      case False
      with "2.IH"(1) [OF one cs] one show ?thesis
        by (simp add: readline_Cons_other del: readline.simps(2))
    qed
  next
    case two
    with "2.prems" obtain b cs' where cs: "cs = b # cs'" and b: "continuation b"
      and v: "valid_utf8 cs'"
      by (auto split: list.splits)
    from two have a: "a \<noteq> LF" by (auto simp: byte_LF)
    from b have b': "b \<noteq> LF" by (rule continuation_not_LF)
    from "2.IH"(2) [OF two cs v] two a b b' show ?thesis
      by (simp add: cs readline_Cons_other del: readline.simps(2))
  next
    case three
    with "2.prems" obtain b c cs' where cs: "cs = b # c # cs'" and b: "second_of_three a b"
      and c: "continuation c" and v: "valid_utf8 cs'"
      by (auto split: list.splits)
    from three have a: "a \<noteq> LF" by (auto simp: byte_LF)
    from b have b': "b \<noteq> LF" by (auto dest: second_of_three_high simp: byte_LF)
    from c have c': "c \<noteq> LF" by (rule continuation_not_LF)
    from "2.IH"(3) [OF three cs refl v] three a b b' c c' show ?thesis
      by (simp add: cs readline_Cons_other del: readline.simps(2))
  next
    case four
    with "2.prems" obtain b c d cs' where cs: "cs = b # c # d # cs'"
      and b: "second_of_four a b" and c: "continuation c" and d: "continuation d"
      and v: "valid_utf8 cs'"
      by (auto split: list.splits)
    from four have a: "a \<noteq> LF" by (auto simp: byte_LF)
    from b have b': "b \<noteq> LF" by (auto dest: second_of_four_high simp: byte_LF)
    from c have c': "c \<noteq> LF" by (rule continuation_not_LF)
    from d have d': "d \<noteq> LF" by (rule continuation_not_LF)
    from "2.IH"(4) [OF four cs refl refl v] four a b b' c c' d d' show ?thesis
      by (simp add: cs readline_Cons_other del: readline.simps(2))
  next
    case none
    with "2.prems" show ?thesis by simp
  qed
qed

lemma valid_utf8_iter_lines:
  "valid_utf8 f \<Longrightarrow> l \<in> set (iter_lines f) \<Longrightarrow> valid_utf8 l"
proof (induction f rule: iter_lines.induct)
  case (1 f)
  show ?case
  proof (cases "f = []")
    case True
    with 1 show ?thesis by simp
  next
    case False
    then have ne: "fst (readline f) \<noteq> []" by (rule readline_nonempty)
    from "1.prems"(1) have v: "valid_utf8 (fst (readline f))" "valid_utf8 (snd (readline f))"
      by (simp_all add: valid_utf8_readline)
    from "1.prems"(2) False
    have "l = fst (readline f) \<or> l \<in> set (iter_lines (snd (readline f)))"
      by (simp add: iter_lines_step)
    then show ?thesis
    proof
      assume "l = fst (readline f)"
      with v show ?thesis by simp
    next
      assume "l \<in> set (iter_lines (snd (readline f)))"
      with "1.IH" ne v show ?thesis by simp
    qed
  qed
qed

section \<open>Facts about the parser's loop\<close>

lemma lazy_parse_loop_valid:
  "valid_utf8 l \<Longrightarrow>
   lazy_parse_loop b n (l # ls) =
     (Emit \<lparr>page_content = l,
            metadata = [(''line_number'', PyInt (n + 1)), (''source'', opt_str (source b))]\<rparr>
        # fst (lazy_parse_loop b (n + 1) ls),
      snd (lazy_parse_loop b (n + 1) ls))"
  by (simp add: Let_def Document_from_bytes_def split: prod.splits)

lemma lazy_parse_loop_invalid:
  "\<not> valid_utf8 l \<Longrightarrow> lazy_parse_loop b n (l # ls) = ([], Some ValidationError)"
  by (simp add: Let_def Document_from_bytes_def)

lemma raised_lazy_parse_loop:
  "\<forall>l \<in> set ls. valid_utf8 l \<Longrightarrow> snd (lazy_parse_loop b n ls) = None"
  by (induction ls arbitrary: n) (simp_all add: lazy_parse_loop_valid del: lazy_parse_loop.simps(2))

lemma length_lazy_parse_loop:
  "\<forall>l \<in> set ls. valid_utf8 l \<Longrightarrow> length (emitted (fst (lazy_parse_loop b n ls))) = length ls"
  by (induction ls arbitrary: n) (simp_all add: lazy_parse_loop_valid del: lazy_parse_loop.simps(2))

lemma contents_lazy_parse_loop:
  "\<forall>l \<in> set ls. valid_utf8 l \<Longrightarrow>
   map page_content (emitted (fst (lazy_parse_loop b n ls))) = ls"
  by (induction ls arbitrary: n) (simp_all add: lazy_parse_loop_valid del: lazy_parse_loop.simps(2))

lemma nth_lazy_parse_loop:
  "\<forall>l \<in> set ls. valid_utf8 l \<Longrightarrow> i < length ls \<Longrightarrow>
   emitted (fst (lazy_parse_loop b n ls)) ! i =
     \<lparr>page_content = ls ! i,
      metadata = [(''line_number'', PyInt (n + 1 + int i)), (''source'', opt_str (source b))]\<rparr>"
proof (induction ls arbitrary: n i)
  case Nil
  then show ?case by simp
next
  case (Cons l ls)
  then have l: "valid_utf8 l" and ls: "\<forall>l \<in> set ls. valid_utf8 l" by simp_all
  show ?case
  proof (cases i)
    case 0
    then show ?thesis by (simp add: lazy_parse_loop_valid [OF l] del: lazy_parse_loop.simps(2))
  next
    case (Suc j)
    with Cons.prems have "j < length ls" by simp
    from Cons.IH [OF ls this, of "n + 1"] Suc show ?thesis
      by (simp add: lazy_parse_loop_valid [OF l] del: lazy_parse_loop.simps(2))
  qed
qed

lemma lazy_parse_loop_Emit:
  "fst (lazy_parse_loop b n ls) = map Emit (emitted (fst (lazy_parse_loop b n ls)))"
proof (induction ls arbitrary: n)
  case Nil
  show ?case by simp
next
  case (Cons l ls)
  show ?case
  proof (cases "valid_utf8 l")
    case True
    with Cons [of "n + 1"] show ?thesis
      by (simp add: lazy_parse_loop_valid del: lazy_parse_loop.simps(2))
  next
    case False
    then show ?thesis by (simp add: lazy_parse_loop_invalid del: lazy_parse_loop.simps(2))
  qed
qed

lemma lazy_parse_in_memory:
  "payload b = InMemory bytes \<Longrightarrow>
   lazy_parse fs b =
     (Resolve b # fst (lazy_parse_loop b 0 (iter_lines bytes)),
      snd (lazy_parse_loop b 0 (iter_lines bytes)))"
  by (simp add: lazy_parse_def as_bytes_io_def split: prod.splits)

lemma lazy_parse_resolved:
  "as_bytes_io fs b = Inr bytes \<Longrightarrow>
   lazy_parse fs b =
     (Resolve b # fst (lazy_parse_loop b 0 (iter_lines bytes)),
      snd (lazy_parse_loop b 0 (iter_lines bytes)))"
  by (simp add: lazy_parse_def split: prod.splits)

lemma lazy_parse_shape:
  "fst (lazy_parse fs b) = [] \<or>
   fst (lazy_parse fs b) = Resolve b # map Emit (records (lazy_parse fs b))"
proof (cases "as_bytes_io fs b")
  case (Inl e)
  then show ?thesis by (simp add: lazy_parse_def)
next
  case (Inr bytes)
  from lazy_parse_loop_Emit [of b 0 "iter_lines bytes"] show ?thesis
    by (simp add: lazy_parse_resolved [OF Inr] records_def)
qed

lemma lazy_parse_ok:
  "raised (lazy_parse fs b) = None \<Longrightarrow>
   fst (lazy_parse fs b) = Resolve b # map Emit (records (lazy_parse fs b))"
proof (cases "as_bytes_io fs b")
  case (Inl e)
  moreover assume "raised (lazy_parse fs b) = None"
  ultimately show ?thesis by (simp add: lazy_parse_def raised_def)
next
  case (Inr bytes)
  from lazy_parse_loop_Emit [of b 0 "iter_lines bytes"] show ?thesis
    by (simp add: lazy_parse_resolved [OF Inr] records_def)
qed

section \<open>Facts about the metadata\<close>

lemma metadata_lazy_parse_loop:
  "d \<in> set (emitted (fst (lazy_parse_loop b n ls))) \<Longrightarrow>
   lookup ''source'' d = Some (opt_str (source b)) \<and>
   map fst (metadata d) = [''line_number'', ''source'']"
proof (induction ls arbitrary: n)
  case Nil
  then show ?case by simp
next
  case (Cons l ls)
  show ?case
  proof (cases "valid_utf8 l")
    case True
    with Cons.prems Cons.IH [of "n + 1"] show ?thesis
      by (auto simp: lazy_parse_loop_valid lookup_def simp del: lazy_parse_loop.simps(2))
  next
    case False
    with Cons.prems show ?thesis
      by (simp add: lazy_parse_loop_invalid del: lazy_parse_loop.simps(2))
  qed
qed

lemma source_lazy_load_loop:
  "d \<in> set (emitted (lazy_load_loop self n ls)) \<Longrightarrow> lookup ''source'' d = Some (PyStr (file_path self))"
  by (induction ls arbitrary: n) (auto simp: lookup_def)

lemma records_lazy_parse_cases:
  "records (lazy_parse fs b) = [] \<or>
   (\<exists>f. records (lazy_parse fs b) = emitted (fst (lazy_parse_loop b 0 (iter_lines f))))"
proof (cases "as_bytes_io fs b")
  case (Inl e)
  then show ?thesis by (simp add: lazy_parse_def records_def)
next
  case (Inr bytes)
  then show ?thesis by (auto simp: lazy_parse_resolved records_def)
qed

lemma records_lazy_load_cases:
  "records (lazy_load fs self) = [] \<or>
   (\<exists>f. records (lazy_load fs self) = emitted (lazy_load_loop self 0 (iter_lines f)))"
  by (auto simp: records_def lazy_load_def split: sum.splits)

section \<open>Facts about the loader\<close>

lemma universal_newlines_id: "CR \<notin> set f \<Longrightarrow> universal_newlines f = f"
  by (induction f rule: universal_newlines.induct) auto

lemma length_lazy_load_loop [simp]:
  "length (emitted (lazy_load_loop self n ls)) = length ls"
  by (induction ls arbitrary: n) simp_all

lemma contents_lazy_load_loop:
  "map page_content (emitted (lazy_load_loop self n ls)) = ls"
  by (induction ls arbitrary: n) simp_all

lemma nth_lazy_load_loop:
  "i < length ls \<Longrightarrow>
   emitted (lazy_load_loop self n ls) ! i =
     \<lparr>page_content = ls ! i,
      metadata = [(''line_number'', PyInt (n + int i)), (''source'', PyStr (file_path self))]\<rparr>"
proof (induction ls arbitrary: n i)
  case Nil
  then show ?case by simp
next
  case (Cons l ls)
  show ?case
  proof (cases i)
    case 0
    then show ?thesis by simp
  next
    case (Suc j)
    with Cons.prems have "j < length ls" by simp
    from Cons.IH [OF this, of "n + 1"] Suc show ?thesis by simp
  qed
qed

lemma alazy_load_loop_eq: "alazy_load_loop self n ls = lazy_load_loop self n ls"
  by (induction ls arbitrary: n) simp_all

lemma py_list_eq:
  "py_list acc es ending = (case ending of None \<Rightarrow> Inr (acc @ emitted es) | Some e \<Rightarrow> Inl e)"
proof (induction es arbitrary: acc)
  case Nil
  then show ?case by (cases ending) simp_all
next
  case (Cons ev es)
  then show ?case by (cases ev; cases ending) simp_all
qed

lemma load_run_eq:
  "load_run r = (case raised r of None \<Rightarrow> Inr (records r) | Some e \<Rightarrow> Inl e)"
  by (cases "snd r") (simp_all add: load_run_def py_list_eq raised_def records_def)

section \<open>Facts about runs and the generic loader\<close>

lemma emitted_append [simp]: "emitted (es @ es') = emitted es @ emitted es'"
  by (induction es rule: emitted.induct) simp_all

lemma resolved_append [simp]: "resolved (es @ es') = resolved es @ resolved es'"
  by (induction es rule: resolved.induct) simp_all

lemma emitted_map_Emit [simp]: "emitted (map Emit ds) = ds"
  by (induction ds) simp_all

lemma resolved_map_Emit [simp]: "resolved (map Emit ds) = []"
  by (induction ds) simp_all

lemma generic_lazy_load_ok:
  "raised (parse b) = None \<Longrightarrow>
   generic_lazy_load parse (b # bs) ending =
     (fst (parse b) @ fst (generic_lazy_load parse bs ending),
      snd (generic_lazy_load parse bs ending))"
  by (cases "parse b"; cases "generic_lazy_load parse bs ending") (simp add: raised_def)

lemma generic_lazy_load_raise:
  "raised (parse b) = Some e \<Longrightarrow>
   generic_lazy_load parse (b # post) ending = (fst (parse b), Some e)"
  by (cases "parse b") (simp add: raised_def)

lemma generic_lazy_load_append:
  "\<forall>b \<in> set pre. raised (parse b) = None \<Longrightarrow>
   generic_lazy_load parse (pre @ bs) ending =
     (concat (map (\<lambda>b. fst (parse b)) pre) @ fst (generic_lazy_load parse bs ending),
      snd (generic_lazy_load parse bs ending))"
proof (induction pre)
  case Nil
  show ?case by simp
next
  case (Cons b pre)
  then have b: "raised (parse b) = None" by simp
  from Cons have
    "generic_lazy_load parse (pre @ bs) ending =
     (concat (map (\<lambda>b. fst (parse b)) pre) @ fst (generic_lazy_load parse bs ending),
      snd (generic_lazy_load parse bs ending))"
    by simp
  with b show ?case by (simp add: generic_lazy_load_ok del: generic_lazy_load.simps)
qed

lemma generic_lazy_load_all_ok:
  "\<forall>b \<in> set bs. raised (parse b) = None \<Longrightarrow>
   generic_lazy_load parse bs ending = (concat (map (\<lambda>b. fst (parse b)) bs), ending)"
  using generic_lazy_load_append [of bs parse "[]" ending] by simp

lemma emitted_concat: "emitted (concat ess) = concat (map emitted ess)"
  by (induction ess) simp_all

lemma generic_lazy_load_rest:
  "\<exists>es. fst (generic_lazy_load parse (b # bs) ending) = fst (parse b) @ es"
  by (cases "parse b"; cases "generic_lazy_load parse bs ending") (auto split: option.splits)

lemma consume_Emits:
  "k \<le> length ds \<Longrightarrow> consume k (map Emit ds @ es) = map Emit (take k ds)"
proof (induction ds arbitrary: k)
  case Nil
  then show ?case by simp
next
  case (Cons d ds)
  then show ?case by (cases k) simp_all
qed

lemma consume_past:
  "length (emitted es) < k \<Longrightarrow> consume k (es @ es') = es @ consume (k - length (emitted es)) es'"
proof (induction es arbitrary: k)
  case Nil
  then show ?case by simp
next
  case (Cons ev es)
  then obtain j where k: "k = Suc j" by (cases k) auto
  show ?case
  proof (cases ev)
    case (Emit d)
    with Cons.prems k have "length (emitted es) < j" by simp
    from Cons.IH [OF this] Emit k show ?thesis by simp
  next
    case (Resolve b)
    with Cons.prems have "length (emitted es) < k" by simp
    from Cons.IH [OF this] Resolve k show ?thesis by simp
  next
    case (Open p)
    with Cons.prems have "length (emitted es) < k" by simp
    from Cons.IH [OF this] Open k show ?thesis by simp
  qed
qed

lemma resolved_runs:
  "\<forall>b \<in> set bs. raised (lazy_parse fs b) = None \<Longrightarrow>
   resolved (concat (map (\<lambda>b. fst (lazy_parse fs b)) bs)) = bs"
  by (induction bs) (simp_all add: lazy_parse_ok)

section \<open>Facts about the store\<close>

text \<open>The loop on a stream of the store makes the run of the loop on the lines of what the
  stream had left, whatever else the store holds.\<close>

lemma lazy_parse_steps_run:
  "streams st f = Some unread \<Longrightarrow>
   fst (lazy_parse_steps b f n st) = lazy_parse_loop b n (iter_lines unread)"
proof (induction unread arbitrary: n st rule: iter_lines.induct)
  case (1 unread)
  show ?case
  proof (cases "unread = []")
    case True
    with "1.prems" show ?thesis
      by (simp add: lazy_parse_steps.simps [of b f n st] stream_readline_def)
  next
    case False
    then have ne: "fst (readline unread) \<noteq> []" by (rule readline_nonempty)
    let ?line = "fst (readline unread)"
    let ?st = "st\<lparr>streams := (streams st)(f \<mapsto> snd (readline unread))\<rparr>"
    have read: "stream_readline f st = (Inr ?line, ?st)"
      using "1.prems" by (simp add: stream_readline_def split: prod.splits)
    have "streams ?st f = Some (snd (readline unread))" by simp
    from "1.IH" [OF refl ne this]
    have IH: "fst (lazy_parse_steps b f (n + 1) ?st)
        = lazy_parse_loop b (n + 1) (iter_lines (snd (readline unread)))" .
    show ?thesis
    proof (cases "valid_utf8 ?line")
      case True
      with ne IH show ?thesis
        by (simp add: lazy_parse_steps.simps [of b f n st] read iter_lines_step [OF False]
            lazy_parse_loop_valid Document_from_bytes_def Let_def case_prod_beta
            del: lazy_parse_loop.simps(2))
    next
      case invalid: False
      with ne show ?thesis
        by (simp add: lazy_parse_steps.simps [of b f n st] read iter_lines_step [OF False]
            lazy_parse_loop_invalid Document_from_bytes_def Let_def
            del: lazy_parse_loop.simps(2))
    qed
  qed
qed

lemma lazy_parse_store_run: "fst (lazy_parse_store fs b st) = lazy_parse fs b"
proof (cases "as_bytes_io fs b")
  case (Inl e)
  then show ?thesis by (simp add: lazy_parse_store_def lazy_parse_def)
next
  case (Inr bytes)
  have "streams (snd (open_stream bytes st)) (fst (open_stream bytes st)) = Some bytes"
    by (simp add: open_stream_def)
  from lazy_parse_steps_run [OF this, of b 0] show ?thesis
    by (simp add: lazy_parse_store_def lazy_parse_resolved [OF Inr] Inr case_prod_beta)
qed

section \<open>Evaluating runs\<close>

text \<open>The definitions to unfold when a run is computed on given bytes.\<close>

lemmas run_eval =
  records_def raised_def lazy_parse_def lazy_load_def alazy_load_def load_def aload_def
  load_run_def as_bytes_io_def from_data_def from_path_def open_text_def read_text_def
  Document_from_bytes_def byte_def continuation_def second_of_three_def second_of_four_def
  quality_content_def iter_lines.simps LF_def CR_def

section \<open>The claims\<close>

text \<open>
  C1, as the code has it. For every blob built from an in-memory byte buffer that is
  well-formed UTF-8, \<^verbatim>\<open>MyParser.lazy_parse\<close> ends normally and yields exactly one document
  per line: the contents of the documents, put together in order, are the buffer; there is
  one document for each line feed and one more for a trailing part without line feed; no
  content is empty, a line feed occurs only at the end of a content, and every content but
  the last ends with one; the \<open>i\<close>-th document (counted from 0) has line number \<open>i + 1\<close>.
  On the bytes \<^verbatim>\<open>b"a\nb\nc"\<close> the documents are \<^verbatim>\<open>"a\n"\<close>, \<^verbatim>\<open>"b\n"\<close>, \<^verbatim>\<open>"c"\<close> with
  line numbers 1, 2, 3.
\<close>

theorem lazy_parse_one_record_per_line:
  assumes mem: "payload b = InMemory bytes" and utf8: "valid_utf8 bytes"
  shows "raised (lazy_parse fs b) = None \<and>
     concat (map page_content (records (lazy_parse fs b))) = bytes \<and>
     length (records (lazy_parse fs b)) =
       count_list bytes LF + (if bytes \<noteq> [] \<and> last bytes \<noteq> LF then 1 else 0) \<and>
     (\<forall>i < length (records (lazy_parse fs b)).
        page_content (records (lazy_parse fs b) ! i) \<noteq> [] \<and>
        LF \<notin> set (butlast (page_content (records (lazy_parse fs b) ! i))) \<and>
        (Suc i < length (records (lazy_parse fs b)) \<longrightarrow>
           last (page_content (records (lazy_parse fs b) ! i)) = LF) \<and>
        lookup ''line_number'' (records (lazy_parse fs b) ! i) = Some (PyInt (int i + 1))) \<and>
     records (lazy_parse fs (from_data ''a\<newline>b\<newline>c'')) =
       [\<lparr>page_content = ''a\<newline>'',
         metadata = [(''line_number'', PyInt 1), (''source'', PyNone)]\<rparr>,
        \<lparr>page_content = ''b\<newline>'',
         metadata = [(''line_number'', PyInt 2), (''source'', PyNone)]\<rparr>,
        \<lparr>page_content = ''c'',
         metadata = [(''line_number'', PyInt 3), (''source'', PyNone)]\<rparr>]"
proof -
  let ?ls = "iter_lines bytes"
  let ?rs = "records (lazy_parse fs b)"
  have valid: "\<forall>l \<in> set ?ls. valid_utf8 l"
    using utf8 by (blast intro: valid_utf8_iter_lines)
  have rs: "?rs = emitted (fst (lazy_parse_loop b 0 ?ls))"
    by (simp add: records_def lazy_parse_in_memory [OF mem])
  have r: "raised (lazy_parse fs b) = None"
    by (simp add: raised_def lazy_parse_in_memory [OF mem] raised_lazy_parse_loop [OF valid])
  have c: "concat (map page_content ?rs) = bytes"
    by (simp add: rs contents_lazy_parse_loop [OF valid] concat_iter_lines)
  have len: "length ?rs = length ?ls"
    by (simp add: rs length_lazy_parse_loop [OF valid])
  have n: "length ?rs = count_list bytes LF + (if bytes \<noteq> [] \<and> last bytes \<noteq> LF then 1 else 0)"
    by (simp only: len length_iter_lines)
  have each: "page_content (?rs ! i) \<noteq> [] \<and>
        LF \<notin> set (butlast (page_content (?rs ! i))) \<and>
        (Suc i < length ?rs \<longrightarrow> last (page_content (?rs ! i)) = LF) \<and>
        lookup ''line_number'' (?rs ! i) = Some (PyInt (int i + 1))"
    if i: "i < length ?rs" for i
  proof -
    from i have il: "i < length ?ls" by (simp add: len)
    then have mem: "?ls ! i \<in> set ?ls" by simp
    have pc: "page_content (?rs ! i) = ?ls ! i"
      by (simp add: rs nth_lazy_parse_loop [OF valid il])
    have ln: "lookup ''line_number'' (?rs ! i) = Some (PyInt (int i + 1))"
      by (simp add: rs nth_lazy_parse_loop [OF valid il] lookup_def)
    have t: "last (?ls ! i) = LF" if "Suc i < length ?rs"
      using that by (simp add: len iter_lines_terminated)
    from iter_lines_shape [OF mem] pc ln t show ?thesis by simp
  qed
  have ex: "records (lazy_parse fs (from_data ''a\<newline>b\<newline>c'')) =
       [\<lparr>page_content = ''a\<newline>'',
         metadata = [(''line_number'', PyInt 1), (''source'', PyNone)]\<rparr>,
        \<lparr>page_content = ''b\<newline>'',
         metadata = [(''line_number'', PyInt 2), (''source'', PyNone)]\<rparr>,
        \<lparr>page_content = ''c'',
         metadata = [(''line_number'', PyInt 3), (''source'', PyNone)]\<rparr>]"
    by (simp add: run_eval)
  from r c n each ex show ?thesis by blast
qed

theorem lazy_parse_one_record_per_line_witness:
  "payload (from_data ''x\<newline>y'') = InMemory ''x\<newline>y'' \<and>
   valid_utf8 ''x\<newline>y'' \<and>
   length (records (lazy_parse Map.empty (from_data ''x\<newline>y''))) = 2 \<and>
   0 < length (records (lazy_parse Map.empty (from_data ''x\<newline>y''))) \<and>
   lookup ''line_number'' (records (lazy_parse Map.empty (from_data ''x\<newline>y'')) ! 0)
     = Some (PyInt 1) \<and>
   Suc 0 < length (records (lazy_parse Map.empty (from_data ''x\<newline>y''))) \<and>
   last (page_content (records (lazy_parse Map.empty (from_data ''x\<newline>y'')) ! 0)) = LF"
proof -
  have p: "payload (from_data ''x\<newline>y'') = InMemory ''x\<newline>y''"
    by (simp add: from_data_def)
  have v: "valid_utf8 ''x\<newline>y''"
    by (simp add: byte_def)
  have n: "count_list ''x\<newline>y'' LF + (if ''x\<newline>y'' \<noteq> [] \<and> last ''x\<newline>y'' \<noteq> LF then 1 else 0) = (2::nat)"
    by (simp add: LF_def)
  from lazy_parse_one_record_per_line [OF p v, of Map.empty] n p v show ?thesis
    by auto
qed

text \<open>
  C1 as stated, for every byte buffer, fails: on \<^verbatim>\<open>b"ok\n\xff\n"\<close>, which has two lines,
  the parser yields the document of the first line and raises when it builds the second,
  whose bytes cannot be decoded.
\<close>

theorem lazy_parse_undecodable_line_counterexample:
  "count_list (''ok\<newline>'' @ [CHR 0xFF, LF]) LF = 2 \<and>
   records (lazy_parse Map.empty (from_data (''ok\<newline>'' @ [CHR 0xFF, LF]))) =
     [\<lparr>page_content = ''ok\<newline>'',
       metadata = [(''line_number'', PyInt 1), (''source'', PyNone)]\<rparr>] \<and>
   raised (lazy_parse Map.empty (from_data (''ok\<newline>'' @ [CHR 0xFF, LF])))
     = Some ValidationError"
  by (simp add: run_eval)

text \<open>
  C2. Every document that \<^verbatim>\<open>MyParser.lazy_parse\<close> yields from a blob has the blob's
  \<^verbatim>\<open>source\<close> under the key \<^verbatim>\<open>'source'\<close> of its metadata (the string, or
  \<^verbatim>\<open>None\<close> when the blob has no source), and every document that
  \<^verbatim>\<open>CustomDocumentLoader.lazy_load\<close> yields has the loader's file path there.
\<close>

theorem records_carry_source:
  "(\<forall>d \<in> set (records (lazy_parse fs b)). lookup ''source'' d = Some (opt_str (source b))) \<and>
   (\<forall>d \<in> set (records (lazy_load fs self)). lookup ''source'' d = Some (PyStr (file_path self)))"
proof (intro conjI ballI)
  fix d assume d: "d \<in> set (records (lazy_parse fs b))"
  from records_lazy_parse_cases [of fs b] d
  obtain f where "d \<in> set (emitted (fst (lazy_parse_loop b 0 (iter_lines f))))" by auto
  from metadata_lazy_parse_loop [OF this] show "lookup ''source'' d = Some (opt_str (source b))"
    by simp
next
  fix d assume d: "d \<in> set (records (lazy_load fs self))"
  from records_lazy_load_cases [of fs self] d
  obtain f where "d \<in> set (emitted (lazy_load_loop self 0 (iter_lines f)))" by auto
  then show "lookup ''source'' d = Some (PyStr (file_path self))"
    by (rule source_lazy_load_loop)
qed


theorem records_carry_source_witness:
  "(\<lparr>page_content = ''meow'', metadata = [(''line_number'', PyInt 2), (''source'', PyStr ''./meow.txt'')]\<rparr>
      \<in> set (records (lazy_parse [''./meow.txt'' \<mapsto> ''hi\<newline>meow''] (from_path ''./meow.txt'' []))) \<and>
    lookup ''source'' \<lparr>page_content = ''meow'', metadata = [(''line_number'', PyInt 2), (''source'', PyStr ''./meow.txt'')]\<rparr>
      = Some (opt_str (source (from_path ''./meow.txt'' [])))) \<and>
   (\<lparr>page_content = ''meow'', metadata = [(''line_number'', PyInt 1), (''source'', PyStr ''./meow.txt'')]\<rparr>
      \<in> set (records (lazy_load [''./meow.txt'' \<mapsto> ''hi\<newline>meow''] \<lparr>file_path = ''./meow.txt''\<rparr>)) \<and>
    lookup ''source'' \<lparr>page_content = ''meow'', metadata = [(''line_number'', PyInt 1), (''source'', PyStr ''./meow.txt'')]\<rparr>
      = Some (PyStr (file_path \<lparr>file_path = ''./meow.txt''\<rparr>)))"
proof -
  have p: "\<lparr>page_content = ''meow'', metadata = [(''line_number'', PyInt 2), (''source'', PyStr ''./meow.txt'')]\<rparr>
      \<in> set (records (lazy_parse [''./meow.txt'' \<mapsto> ''hi\<newline>meow''] (from_path ''./meow.txt'' [])))"
    by (simp add: records_def lazy_parse_def as_bytes_io_def from_path_def run_eval)
  have l: "\<lparr>page_content = ''meow'', metadata = [(''line_number'', PyInt 1), (''source'', PyStr ''./meow.txt'')]\<rparr>
      \<in> set (records (lazy_load [''./meow.txt'' \<mapsto> ''hi\<newline>meow''] \<lparr>file_path = ''./meow.txt''\<rparr>))"
    by (simp add: records_def lazy_load_def open_text_def run_eval)
  from records_carry_source [of "[''./meow.txt'' \<mapsto> ''hi\<newline>meow'']" "from_path ''./meow.txt'' []"
      "\<lparr>file_path = ''./meow.txt''\<rparr>"] p l
  show ?thesis by blast
qed

text \<open>
  C10. For a blob built from in-memory bytes, with no source, the metadata of every document
  that \<^verbatim>\<open>MyParser.lazy_parse\<close> yields has exactly the keys \<^verbatim>\<open>'line_number'\<close> and
  \<^verbatim>\<open>'source'\<close>, the latter present with the value \<^verbatim>\<open>None\<close>; there is such a
  document as soon as the buffer is not empty and is well-formed UTF-8. The notebook's
  \<^verbatim>\<open>Blob(data=b"some data from memory\nmeow")\<close> gives the two documents it prints.
\<close>

theorem in_memory_source_is_None:
  assumes "payload b = InMemory bytes" and "source b = None"
  shows "(bytes \<noteq> [] \<and> valid_utf8 bytes \<longrightarrow> records (lazy_parse fs b) \<noteq> []) \<and>
     (\<forall>d \<in> set (records (lazy_parse fs b)).
        map fst (metadata d) = [''line_number'', ''source''] \<and>
        map_of (metadata d) ''source'' = Some PyNone) \<and>
     records (lazy_parse fs (from_data ''some data from memory\<newline>meow'')) =
       [\<lparr>page_content = ''some data from memory\<newline>'',
         metadata = [(''line_number'', PyInt 1), (''source'', PyNone)]\<rparr>,
        \<lparr>page_content = ''meow'',
         metadata = [(''line_number'', PyInt 2), (''source'', PyNone)]\<rparr>]"
proof -
  have rs: "records (lazy_parse fs b) = emitted (fst (lazy_parse_loop b 0 (iter_lines bytes)))"
    by (simp add: records_def lazy_parse_in_memory [OF assms(1)])
  have ne: "records (lazy_parse fs b) \<noteq> []" if "bytes \<noteq> []" and "valid_utf8 bytes"
  proof -
    from that(2) have valid: "\<forall>l \<in> set (iter_lines bytes). valid_utf8 l"
      by (blast intro: valid_utf8_iter_lines)
    from that(1) have "length (iter_lines bytes) \<noteq> 0" by (simp add: iter_lines_empty_iff)
    then have "length (records (lazy_parse fs b)) \<noteq> 0"
      by (simp add: rs length_lazy_parse_loop [OF valid])
    then show ?thesis by simp
  qed
  have md: "map fst (metadata d) = [''line_number'', ''source''] \<and>
        map_of (metadata d) ''source'' = Some PyNone"
    if "d \<in> set (records (lazy_parse fs b))" for d
    using metadata_lazy_parse_loop [of d b 0 "iter_lines bytes"] that
    by (simp add: rs lookup_def assms(2))
  have ex: "records (lazy_parse fs (from_data ''some data from memory\<newline>meow'')) =
       [\<lparr>page_content = ''some data from memory\<newline>'',
         metadata = [(''line_number'', PyInt 1), (''source'', PyNone)]\<rparr>,
        \<lparr>page_content = ''meow'',
         metadata = [(''line_number'', PyInt 2), (''source'', PyNone)]\<rparr>]"
    by (simp add: run_eval)
  from ne md ex show ?thesis by blast
qed

theorem in_memory_source_is_None_witness:
  "payload (from_data ''meow'') = InMemory ''meow'' \<and> source (from_data ''meow'') = None \<and>
   ''meow'' \<noteq> [] \<and> valid_utf8 ''meow'' \<and> records (lazy_parse Map.empty (from_data ''meow'')) \<noteq> [] \<and>
   \<lparr>page_content = ''meow'', metadata = [(''line_number'', PyInt 1), (''source'', PyNone)]\<rparr>
     \<in> set (records (lazy_parse Map.empty (from_data ''meow''))) \<and>
   map_of (metadata \<lparr>page_content = ''meow'',
      metadata = [(''line_number'', PyInt 1), (''source'', PyNone)]\<rparr>) ''source'' = Some PyNone"
proof -
  have p: "payload (from_data ''meow'') = InMemory ''meow''" by (simp add: from_data_def)
  have s: "source (from_data ''meow'') = None" by (simp add: from_data_def)
  have m: "\<lparr>page_content = ''meow'', metadata = [(''line_number'', PyInt 1), (''source'', PyNone)]\<rparr>
     \<in> set (records (lazy_parse Map.empty (from_data ''meow'')))"
    by (simp add: records_def lazy_parse_def as_bytes_io_def from_data_def run_eval)
  have v: "valid_utf8 ''meow''" by (simp add: byte_def)
  from in_memory_source_is_None [OF p s, of Map.empty] p s m v show ?thesis by blast
qed

text \<open>
  C4. The eager \<^verbatim>\<open>load()\<close> returns exactly the documents of the \<^verbatim>\<open>lazy_load()\<close>
  run, in the order in which they are yielded and with their metadata, when the run ends
  normally, and raises the run's exception otherwise; this holds for the standalone loader
  and for the generic loader. On the notebook's \<^verbatim>\<open>./meow.txt\<close> it returns the three
  documents the notebook shows for \<^verbatim>\<open>loader.load()\<close>.
\<close>

theorem load_is_drained_lazy_load:
  "load fs self =
     (case raised (lazy_load fs self) of
        None \<Rightarrow> Inr (records (lazy_load fs self)) | Some e \<Rightarrow> Inl e) \<and>
   generic_load parse bs ending =
     (case raised (generic_lazy_load parse bs ending) of
        None \<Rightarrow> Inr (records (generic_lazy_load parse bs ending)) | Some e \<Rightarrow> Inl e) \<and>
   load [''./meow.txt'' \<mapsto> quality_content] \<lparr>file_path = ''./meow.txt''\<rparr> =
     Inr [\<lparr>page_content = ''meow meow'' @ [CHR 0xF0, CHR 0x9F, CHR 0x90, CHR 0xB1] @ '' \<newline>'',
           metadata = [(''line_number'', PyInt 0), (''source'', PyStr ''./meow.txt'')]\<rparr>,
          \<lparr>page_content = '' meow meow'' @ [CHR 0xF0, CHR 0x9F, CHR 0x90, CHR 0xB1] @ '' \<newline>'',
           metadata = [(''line_number'', PyInt 1), (''source'', PyStr ''./meow.txt'')]\<rparr>,
          \<lparr>page_content = '' meow'' @ [CHR 0xF0, CHR 0x9F, CHR 0x98, CHR 0xBB, CHR 0xF0, CHR 0x9F, CHR 0x98, CHR 0xBB],
           metadata = [(''line_number'', PyInt 2), (''source'', PyStr ''./meow.txt'')]\<rparr>]"
proof -
  have "load [''./meow.txt'' \<mapsto> quality_content] \<lparr>file_path = ''./meow.txt''\<rparr> =
     Inr [\<lparr>page_content = ''meow meow'' @ [CHR 0xF0, CHR 0x9F, CHR 0x90, CHR 0xB1] @ '' \<newline>'',
           metadata = [(''line_number'', PyInt 0), (''source'', PyStr ''./meow.txt'')]\<rparr>,
          \<lparr>page_content = '' meow meow'' @ [CHR 0xF0, CHR 0x9F, CHR 0x90, CHR 0xB1] @ '' \<newline>'',
           metadata = [(''line_number'', PyInt 1), (''source'', PyStr ''./meow.txt'')]\<rparr>,
          \<lparr>page_content = '' meow'' @ [CHR 0xF0, CHR 0x9F, CHR 0x98, CHR 0xBB, CHR 0xF0, CHR 0x9F, CHR 0x98, CHR 0xBB],
           metadata = [(''line_number'', PyInt 2), (''source'', PyStr ''./meow.txt'')]\<rparr>]"
    by (simp add: load_def load_run_def lazy_load_def open_text_def quality_content_def
        run_eval)
  then show ?thesis
    by (simp only: load_def generic_load_def load_run_eq simp_thms)
qed

text \<open>
  C6. With the package \<^verbatim>\<open>aiofiles\<close> that the code requires, \<^verbatim>\<open>alazy_load\<close> makes the
  same run as \<^verbatim>\<open>lazy_load\<close> on the same loader and the same files: the same documents
  with the same contents and line numbers, and the same exception under the same
  conditions (no such file, bytes that cannot be decoded); \<^verbatim>\<open>aload\<close> returns what
  \<^verbatim>\<open>load\<close> returns. How the two are scheduled is not part of the model.
\<close>

theorem async_equals_sync:
  assumes "aiofiles"
  shows "alazy_load aiofiles fs self = lazy_load fs self \<and>
     aload aiofiles fs self = load fs self"
proof -
  from assms have "alazy_load aiofiles fs self = lazy_load fs self"
    by (simp add: alazy_load_def lazy_load_def alazy_load_loop_eq split: sum.splits)
  then show ?thesis by (simp add: aload_def load_def)
qed

theorem async_equals_sync_witness:
  "length (records (lazy_load [''./meow.txt'' \<mapsto> quality_content] \<lparr>file_path = ''./meow.txt''\<rparr>))
     = 3 \<and>
   alazy_load True [''./meow.txt'' \<mapsto> quality_content] \<lparr>file_path = ''./meow.txt''\<rparr>
     = lazy_load [''./meow.txt'' \<mapsto> quality_content] \<lparr>file_path = ''./meow.txt''\<rparr> \<and>
   aload True [''./meow.txt'' \<mapsto> quality_content] \<lparr>file_path = ''./meow.txt''\<rparr>
     = load [''./meow.txt'' \<mapsto> quality_content] \<lparr>file_path = ''./meow.txt''\<rparr>"
proof -
  have n: "length (records (lazy_load [''./meow.txt'' \<mapsto> quality_content]
      \<lparr>file_path = ''./meow.txt''\<rparr>)) = 3"
    by (simp add: run_eval)
  from async_equals_sync [of True "[''./meow.txt'' \<mapsto> quality_content]"
      "\<lparr>file_path = ''./meow.txt''\<rparr>"] n
  show ?thesis by simp
qed

text \<open>
  C9, as the code has it. For a file that is well-formed UTF-8 and has no carriage return,
  the loader and the parser (on the blob of that file) yield documents with the same
  contents in the same order, and the \<open>i\<close>-th document (counted from 0) has line number
  \<open>i\<close> from the loader and \<open>i + 1\<close> from the parser.
\<close>

theorem loader_and_parser_line_numbers:
  assumes content: "fs (file_path self) = Some bytes" and utf8: "valid_utf8 bytes"
    and no_cr: "CR \<notin> set bytes"
  shows "map page_content (records (lazy_load fs self))
       = map page_content (records (lazy_parse fs (from_path (file_path self) md))) \<and>
     (\<forall>i < length (records (lazy_load fs self)).
        lookup ''line_number'' (records (lazy_load fs self) ! i) = Some (PyInt (int i)) \<and>
        lookup ''line_number'' (records (lazy_parse fs (from_path (file_path self) md)) ! i)
          = Some (PyInt (int i + 1)))"
proof -
  let ?b = "from_path (file_path self) md"
  let ?ls = "iter_lines bytes"
  have valid: "\<forall>l \<in> set ?ls. valid_utf8 l"
    using utf8 by (blast intro: valid_utf8_iter_lines)
  have l: "records (lazy_load fs self) = emitted (lazy_load_loop self 0 ?ls)"
    using content utf8 no_cr
    by (simp add: records_def lazy_load_def open_text_def read_text_def universal_newlines_id)
  have "as_bytes_io fs ?b = Inr bytes"
    using content by (simp add: as_bytes_io_def from_path_def)
  then have p: "records (lazy_parse fs ?b) = emitted (fst (lazy_parse_loop ?b 0 ?ls))"
    by (simp add: records_def lazy_parse_resolved)
  have c: "map page_content (records (lazy_load fs self))
       = map page_content (records (lazy_parse fs ?b))"
    by (simp add: l p contents_lazy_load_loop contents_lazy_parse_loop [OF valid])
  have n: "lookup ''line_number'' (records (lazy_load fs self) ! i) = Some (PyInt (int i)) \<and>
        lookup ''line_number'' (records (lazy_parse fs ?b) ! i) = Some (PyInt (int i + 1))"
    if "i < length (records (lazy_load fs self))" for i
  proof -
    from that have i: "i < length ?ls" by (simp add: l)
    show ?thesis
      by (simp add: l p nth_lazy_load_loop [OF i] nth_lazy_parse_loop [OF valid i] lookup_def)
  qed
  from c n show ?thesis by blast
qed

theorem loader_and_parser_line_numbers_witness:
  "[''./meow.txt'' \<mapsto> quality_content] (file_path \<lparr>file_path = ''./meow.txt''\<rparr>)
     = Some quality_content \<and>
   valid_utf8 quality_content \<and>
   CR \<notin> set quality_content \<and>
   2 < length (records (lazy_load [''./meow.txt'' \<mapsto> quality_content] \<lparr>file_path = ''./meow.txt''\<rparr>)) \<and>
   lookup ''line_number''
     (records (lazy_load [''./meow.txt'' \<mapsto> quality_content] \<lparr>file_path = ''./meow.txt''\<rparr>) ! 2)
     = Some (PyInt 2) \<and>
   lookup ''line_number''
     (records (lazy_parse [''./meow.txt'' \<mapsto> quality_content] (from_path ''./meow.txt'' [])) ! 2)
     = Some (PyInt 3)"
proof -
  have f: "[''./meow.txt'' \<mapsto> quality_content] (file_path \<lparr>file_path = ''./meow.txt''\<rparr>)
     = Some quality_content" by simp
  have v: "valid_utf8 quality_content" by (simp add: run_eval)
  have c: "CR \<notin> set quality_content" by (simp add: quality_content_def CR_def)
  have n: "2 < length (records (lazy_load [''./meow.txt'' \<mapsto> quality_content] \<lparr>file_path = ''./meow.txt''\<rparr>))"
    by (simp add: records_def lazy_load_def open_text_def quality_content_def
        run_eval)
  from loader_and_parser_line_numbers
    [of "[''./meow.txt'' \<mapsto> quality_content]" "\<lparr>file_path = ''./meow.txt''\<rparr>"
        quality_content "[]", OF f v c] f v c n
  show ?thesis by auto
qed

text \<open>
  C9 as stated, for every file content, fails in two ways. On the bytes \<^verbatim>\<open>b"a\r\nb"\<close> the
  loader, which opens the file in text mode, yields \<^verbatim>\<open>"a\n"\<close> and \<^verbatim>\<open>"b"\<close>, the parser,
  which reads the bytes, \<^verbatim>\<open>"a\r\n"\<close> and \<^verbatim>\<open>"b"\<close>. On the bytes \<^verbatim>\<open>b"ok\n\xff\n"\<close> the
  loader raises before its first line, the parser yields \<^verbatim>\<open>"ok\n"\<close> and raises then.
\<close>

theorem loader_and_parser_contents_differ_counterexample:
  "map page_content (records (lazy_load [''f'' \<mapsto> [CHR ''a'', CR, LF, CHR ''b'']] \<lparr>file_path = ''f''\<rparr>))
     = [[CHR ''a'', LF], [CHR ''b'']] \<and>
   map page_content (records (lazy_parse [''f'' \<mapsto> [CHR ''a'', CR, LF, CHR ''b'']] (from_path ''f'' [])))
     = [[CHR ''a'', CR, LF], [CHR ''b'']] \<and>
   map page_content (records (lazy_load [''f'' \<mapsto> [CHR ''a'', CR, LF, CHR ''b'']] \<lparr>file_path = ''f''\<rparr>))
     \<noteq> map page_content (records (lazy_parse [''f'' \<mapsto> [CHR ''a'', CR, LF, CHR ''b'']] (from_path ''f'' []))) \<and>
   lazy_load [''f'' \<mapsto> ''ok\<newline>'' @ [CHR 0xFF, LF]] \<lparr>file_path = ''f''\<rparr>
     = ([Open ''f''], Some UnicodeDecodeError) \<and>
   map page_content (records (lazy_parse [''f'' \<mapsto> ''ok\<newline>'' @ [CHR 0xFF, LF]] (from_path ''f'' [])))
     = [''ok\<newline>''] \<and>
   raised (lazy_parse [''f'' \<mapsto> ''ok\<newline>'' @ [CHR 0xFF, LF]] (from_path ''f'' []))
     = Some ValidationError"
  by (simp add: run_eval)

text \<open>
  C3. When no parse raises, the documents of \<^verbatim>\<open>GenericLoader.lazy_load\<close> are exactly the
  documents the parser yields for the first blob, followed by those for the second, and so on
  in the order of the enumeration, each blob's documents in the parser's order, none left
  out, repeated or moved; the run ends as the enumeration ends. With \<^verbatim>\<open>MyParser\<close>, two
  blobs parsed to two and one documents give these three documents in that order.
\<close>

theorem generic_lazy_load_concatenates:
  assumes "\<forall>b \<in> set bs. raised (parse b) = None"
  shows "records (generic_lazy_load parse bs ending) = concat (map (\<lambda>b. records (parse b)) bs) \<and>
     raised (generic_lazy_load parse bs ending) = ending"
  by (simp add: generic_lazy_load_all_ok [OF assms] records_def raised_def emitted_concat
      comp_def)

theorem generic_lazy_load_concatenates_witness:
  "raised (lazy_parse Map.empty (from_data ''r1a\<newline>r1b'')) = None \<and>
   raised (lazy_parse Map.empty (from_data ''r2a'')) = None \<and>
   map page_content
     (records (generic_lazy_load (lazy_parse Map.empty)
        [from_data ''r1a\<newline>r1b'', from_data ''r2a''] None))
     = [''r1a\<newline>'', ''r1b'', ''r2a''] \<and>
   raised (generic_lazy_load (lazy_parse Map.empty)
        [from_data ''r1a\<newline>r1b'', from_data ''r2a''] None) = None"
proof -
  have ok: "\<forall>b \<in> set [from_data ''r1a\<newline>r1b'', from_data ''r2a''].
      raised (lazy_parse Map.empty b) = None"
    by (simp add: run_eval)
  have r1: "map page_content (records (lazy_parse Map.empty (from_data ''r1a\<newline>r1b'')))
      = [''r1a\<newline>'', ''r1b'']"
    by (simp add: records_def lazy_parse_def as_bytes_io_def from_data_def
        run_eval)
  have r2: "map page_content (records (lazy_parse Map.empty (from_data ''r2a''))) = [''r2a'']"
    by (simp add: records_def lazy_parse_def as_bytes_io_def from_data_def
        run_eval)
  from generic_lazy_load_concatenates [OF ok, of None] ok r1 r2 show ?thesis
    by simp
qed

text \<open>
  C5. Two invocations of \<^verbatim>\<open>MyParser.lazy_parse\<close> on the same blob, the second made in the
  store the first has left, yield the same documents, with the same contents and metadata
  in the same order, and end the same way, as long as the blob's bytes did not change in
  between: for an in-memory blob always, for a blob that refers to its origin when the file
  there is the same at both invocations. More generally the run does not depend on what the
  store holds when the call starts (such as a stream that an abandoned iteration has left
  half read): each invocation reads a stream of its own from the beginning and counts the
  lines from 1. The stream itself cannot be read again: the loop on a stream that a first
  loop has read to its end yields nothing.
\<close>

theorem lazy_parse_again_same_run:
  assumes "\<forall>path. payload b = AtOrigin \<and> source b = Some path \<longrightarrow> fs path = fs' path"
  shows "records (fst (lazy_parse_store fs' b (snd (lazy_parse_store fs b st))))
       = records (fst (lazy_parse_store fs b st)) \<and>
     raised (fst (lazy_parse_store fs' b (snd (lazy_parse_store fs b st))))
       = raised (fst (lazy_parse_store fs b st)) \<and>
     fst (lazy_parse_store fs' b st') = fst (lazy_parse_store fs b st)"
proof -
  have "as_bytes_io fs b = as_bytes_io fs' b"
  proof (cases "payload b")
    case (InMemory bytes)
    then show ?thesis by (simp add: as_bytes_io_def)
  next
    case AtOrigin
    show ?thesis
    proof (cases "source b")
      case None
      with AtOrigin show ?thesis by (simp add: as_bytes_io_def)
    next
      case (Some path)
      with AtOrigin assms have "fs path = fs' path" by simp
      with AtOrigin Some show ?thesis by (simp add: as_bytes_io_def)
    qed
  qed
  then have "lazy_parse fs' b = lazy_parse fs b" by (simp add: lazy_parse_def)
  then show ?thesis by (simp add: lazy_parse_store_run)
qed

theorem lazy_parse_again_same_run_witness:
  "[''f'' \<mapsto> ''x\<newline>y''] ''f'' = [''f'' \<mapsto> ''x\<newline>y'', ''g'' \<mapsto> ''z''] ''f'' \<and>
   snd (lazy_parse_store [''f'' \<mapsto> ''x\<newline>y''] (from_path ''f'' [])
          \<lparr>streams = Map.empty, next_stream = 0\<rparr>)
     = \<lparr>streams = Map.empty, next_stream = 1\<rparr> \<and>
   records (fst (lazy_parse_store [''f'' \<mapsto> ''x\<newline>y'', ''g'' \<mapsto> ''z''] (from_path ''f'' [])
     (snd (lazy_parse_store [''f'' \<mapsto> ''x\<newline>y''] (from_path ''f'' [])
            \<lparr>streams = Map.empty, next_stream = 0\<rparr>))))
     = [\<lparr>page_content = ''x\<newline>'',
         metadata = [(''line_number'', PyInt 1), (''source'', PyStr ''f'')]\<rparr>,
        \<lparr>page_content = ''y'',
         metadata = [(''line_number'', PyInt 2), (''source'', PyStr ''f'')]\<rparr>] \<and>
   raised (fst (lazy_parse_store [''f'' \<mapsto> ''x\<newline>y'', ''g'' \<mapsto> ''z''] (from_path ''f'' [])
     (snd (lazy_parse_store [''f'' \<mapsto> ''x\<newline>y''] (from_path ''f'' [])
            \<lparr>streams = Map.empty, next_stream = 0\<rparr>))))
     = None \<and>
   fst (lazy_parse_steps (from_path ''f'' []) 0 0
     (snd (lazy_parse_steps (from_path ''f'' []) 0 0
            \<lparr>streams = [0 \<mapsto> ''x\<newline>y''], next_stream = 1\<rparr>)))
     = ([], None)"
proof -
  let ?fs = "[''f'' \<mapsto> ''x\<newline>y'']"
  let ?fs' = "[''f'' \<mapsto> ''x\<newline>y'', ''g'' \<mapsto> ''z'']"
  let ?b = "from_path ''f'' []"
  let ?st = "\<lparr>streams = Map.empty, next_stream = 0\<rparr>"
  have same: "\<forall>path. payload ?b = AtOrigin \<and> source ?b = Some path \<longrightarrow> ?fs path = ?fs' path"
    by (simp add: from_path_def)
  have unchanged: "?fs ''f'' = ?fs' ''f''" by simp
  have left: "snd (lazy_parse_store ?fs ?b ?st) = \<lparr>streams = Map.empty, next_stream = 1\<rparr>"
    by (simp add: lazy_parse_store_def open_stream_def close_stream_def stream_readline_def
        lazy_parse_steps.simps run_eval)
  have first: "fst (lazy_parse_store ?fs ?b ?st) =
      ([Resolve ?b,
        Emit \<lparr>page_content = ''x\<newline>'',
              metadata = [(''line_number'', PyInt 1), (''source'', PyStr ''f'')]\<rparr>,
        Emit \<lparr>page_content = ''y'',
              metadata = [(''line_number'', PyInt 2), (''source'', PyStr ''f'')]\<rparr>], None)"
    by (simp add: lazy_parse_store_def open_stream_def close_stream_def stream_readline_def
        lazy_parse_steps.simps run_eval)
  note again = lazy_parse_again_same_run [OF same, of ?st]
  have recs: "records (fst (lazy_parse_store ?fs' ?b (snd (lazy_parse_store ?fs ?b ?st))))
      = records (fst (lazy_parse_store ?fs ?b ?st))"
    by (rule again [THEN conjunct1])
  have ends: "raised (fst (lazy_parse_store ?fs' ?b (snd (lazy_parse_store ?fs ?b ?st))))
      = raised (fst (lazy_parse_store ?fs ?b ?st))"
    by (rule again [THEN conjunct2, THEN conjunct1])
  have r1: "records (fst (lazy_parse_store ?fs ?b ?st)) =
      [\<lparr>page_content = ''x\<newline>'',
         metadata = [(''line_number'', PyInt 1), (''source'', PyStr ''f'')]\<rparr>,
       \<lparr>page_content = ''y'',
         metadata = [(''line_number'', PyInt 2), (''source'', PyStr ''f'')]\<rparr>]"
    by (simp only: first) (simp add: records_def)
  have e1: "raised (fst (lazy_parse_store ?fs ?b ?st)) = None"
    by (simp only: first) (simp add: raised_def)
  from recs r1 have r2: "records (fst (lazy_parse_store ?fs' ?b (snd (lazy_parse_store ?fs ?b ?st))))
      = [\<lparr>page_content = ''x\<newline>'',
           metadata = [(''line_number'', PyInt 1), (''source'', PyStr ''f'')]\<rparr>,
         \<lparr>page_content = ''y'',
           metadata = [(''line_number'', PyInt 2), (''source'', PyStr ''f'')]\<rparr>]"
    by (rule trans)
  from ends e1 have e2: "raised (fst (lazy_parse_store ?fs' ?b (snd (lazy_parse_store ?fs ?b ?st))))
      = None"
    by (rule trans)
  have used: "fst (lazy_parse_steps ?b 0 0
     (snd (lazy_parse_steps ?b 0 0 \<lparr>streams = [0 \<mapsto> ''x\<newline>y''], next_stream = 1\<rparr>)))
     = ([], None)"
    by (simp add: stream_readline_def lazy_parse_steps.simps run_eval)
  show ?thesis by (intro conjI unchanged left r2 e2 used)
qed

text \<open>
  C7. When the blobs before the \<open>k+1\<close>-th parse without raising, and the enumeration raises
  instead of yielding the \<open>k+1\<close>-th blob, or the parse of the \<open>k+1\<close>-th blob raises, the run
  of \<^verbatim>\<open>GenericLoader.lazy_load\<close> is exactly the runs of the parser on the first \<open>k\<close>
  blobs (followed, in the second case, by what the failing parse did before it raised), and
  it ends with that exception: the documents of the first \<open>k\<close> blobs are all yielded,
  nothing is tried again, and no later blob is touched.
\<close>

theorem generic_lazy_load_propagates:
  assumes "\<forall>b \<in> set pre. raised (parse b) = None"
  shows "generic_lazy_load parse pre (Some e) = (concat (map (\<lambda>b. fst (parse b)) pre), Some e) \<and>
     (raised (parse b) = Some e \<longrightarrow>
        generic_lazy_load parse (pre @ b # post) ending =
          (concat (map (\<lambda>b. fst (parse b)) pre) @ fst (parse b), Some e)) \<and>
     records (generic_lazy_load parse pre (Some e)) = concat (map (\<lambda>b. records (parse b)) pre) \<and>
     (raised (parse b) = Some e \<longrightarrow>
        records (generic_lazy_load parse (pre @ b # post) ending) =
          concat (map (\<lambda>b. records (parse b)) pre) @ records (parse b))"
proof -
  have enum: "generic_lazy_load parse pre (Some e) = (concat (map (\<lambda>b. fst (parse b)) pre), Some e)"
    by (rule generic_lazy_load_all_ok [OF assms])
  have prs: "generic_lazy_load parse (pre @ b # post) ending =
          (concat (map (\<lambda>b. fst (parse b)) pre) @ fst (parse b), Some e)"
    if "raised (parse b) = Some e"
    using generic_lazy_load_raise [of parse b e post ending, OF that]
    by (simp add: generic_lazy_load_append [OF assms] del: generic_lazy_load.simps)
  have "records (generic_lazy_load parse pre (Some e)) = concat (map (\<lambda>b. records (parse b)) pre)"
    by (simp add: enum records_def emitted_concat comp_def)
  moreover have "records (generic_lazy_load parse (pre @ b # post) ending) =
          concat (map (\<lambda>b. records (parse b)) pre) @ records (parse b)"
    if "raised (parse b) = Some e"
    by (simp add: prs [OF that] records_def emitted_concat comp_def)
  ultimately show ?thesis using enum prs by blast
qed


theorem generic_lazy_load_propagates_witness:
  "raised (lazy_parse [''a.txt'' \<mapsto> ''x\<newline>y''] (from_path ''a.txt'' [])) = None \<and>
   raised (lazy_parse [''a.txt'' \<mapsto> ''x\<newline>y''] (from_path ''gone.txt'' []))
     = Some SourceEnumerationError \<and>
   map page_content (records (generic_lazy_load (lazy_parse [''a.txt'' \<mapsto> ''x\<newline>y''])
       ([from_path ''a.txt'' []] @ from_path ''gone.txt'' [] # [from_path ''a.txt'' []]) None))
     = [''x\<newline>'', ''y''] \<and>
   raised (generic_lazy_load (lazy_parse [''a.txt'' \<mapsto> ''x\<newline>y''])
       ([from_path ''a.txt'' []] @ from_path ''gone.txt'' [] # [from_path ''a.txt'' []]) None)
     = Some SourceEnumerationError \<and>
   map page_content (records (generic_lazy_load (lazy_parse [''a.txt'' \<mapsto> ''x\<newline>y''])
       [from_path ''a.txt'' []] (Some SourceEnumerationError)))
     = [''x\<newline>'', ''y''] \<and>
   raised (generic_lazy_load (lazy_parse [''a.txt'' \<mapsto> ''x\<newline>y''])
       [from_path ''a.txt'' []] (Some SourceEnumerationError))
     = Some SourceEnumerationError"
proof -
  let ?fs = "[''a.txt'' \<mapsto> ''x\<newline>y'']"
  have ok: "\<forall>b \<in> set [from_path ''a.txt'' []]. raised (lazy_parse ?fs b) = None"
    by (simp add: run_eval)
  have bad: "raised (lazy_parse ?fs (from_path ''gone.txt'' [])) = Some SourceEnumerationError"
    by (simp add: run_eval)
  have a: "fst (lazy_parse ?fs (from_path ''a.txt'' [])) =
     [Resolve (from_path ''a.txt'' []),
      Emit \<lparr>page_content = ''x\<newline>'',
            metadata = [(''line_number'', PyInt 1), (''source'', PyStr ''a.txt'')]\<rparr>,
      Emit \<lparr>page_content = ''y'',
            metadata = [(''line_number'', PyInt 2), (''source'', PyStr ''a.txt'')]\<rparr>]"
    by (simp add: lazy_parse_def as_bytes_io_def from_path_def run_eval)
  have g: "fst (lazy_parse ?fs (from_path ''gone.txt'' [])) = []"
    by (simp add: run_eval)
  from generic_lazy_load_propagates [OF ok, of SourceEnumerationError "from_path ''gone.txt'' []"
      "[from_path ''a.txt'' []]" None] ok bad
  show ?thesis by (simp add: records_def raised_def a g)
qed

text \<open>
  C8, as the model has it. When the consumer has received \<open>k\<close> documents from
  \<^verbatim>\<open>GenericLoader.lazy_load\<close> over \<^verbatim>\<open>MyParser\<close>, and the \<open>k\<close>-th of them comes from the
  blob \<open>b\<close>, the payloads resolved so far are those of the blobs up to and including
  \<open>b\<close>, each once and in order, and of no later blob; the documents received are the
  first \<open>k\<close> of the run; before the first request nothing has happened. So the first
  document leaves the items 2..N unresolved when it comes from item 1. It does not when
  item 1 yields no document: the generator then has to resolve item 2 to produce the first
  document.
\<close>

theorem resolves_only_what_was_asked_for:
  assumes ok: "\<forall>b' \<in> set pre. raised (lazy_parse fs b') = None"
    and lo: "length (concat (map (\<lambda>b'. records (lazy_parse fs b')) pre)) < k"
    and hi: "k \<le> length (concat (map (\<lambda>b'. records (lazy_parse fs b')) pre))
                 + length (records (lazy_parse fs b))"
  shows "resolved (consume k (fst (generic_lazy_load (lazy_parse fs) (pre @ b # post) ending)))
       = pre @ [b] \<and>
     emitted (consume k (fst (generic_lazy_load (lazy_parse fs) (pre @ b # post) ending)))
       = take k (records (generic_lazy_load (lazy_parse fs) (pre @ b # post) ending)) \<and>
     consume 0 (fst (generic_lazy_load (lazy_parse fs) (pre @ b # post) ending)) = []"
proof -
  let ?P = "concat (map (\<lambda>b'. fst (lazy_parse fs b')) pre)"
  let ?n = "length (concat (map (\<lambda>b'. records (lazy_parse fs b')) pre))"
  let ?ds = "records (lazy_parse fs b)"
  have eP: "emitted ?P = concat (map (\<lambda>b'. records (lazy_parse fs b')) pre)"
    by (simp add: emitted_concat records_def comp_def)
  from lo hi have ne: "?ds \<noteq> []" by auto
  have shape: "fst (lazy_parse fs b) = Resolve b # map Emit ?ds"
    using lazy_parse_shape [of fs b] ne by (auto simp: records_def)
  from generic_lazy_load_rest [of "lazy_parse fs" b post ending]
  obtain R where rest: "fst (generic_lazy_load (lazy_parse fs) (b # post) ending)
      = fst (lazy_parse fs b) @ R" ..
  have run: "fst (generic_lazy_load (lazy_parse fs) (pre @ b # post) ending)
      = ?P @ (Resolve b # map Emit ?ds @ R)"
    by (simp add: generic_lazy_load_append [OF ok] rest shape del: generic_lazy_load.simps)
  from lo have lo': "length (emitted ?P) < k" by (simp add: eP)
  from lo obtain j where j: "k - ?n = Suc j" by (cases "k - ?n") auto
  with hi have jle: "Suc j \<le> length ?ds" by simp
  have cons: "consume k (?P @ (Resolve b # map Emit ?ds @ R))
      = ?P @ Resolve b # map Emit (take (Suc j) ?ds)"
    using consume_Emits [OF jle, of R]
    by (simp add: consume_past [OF lo'] eP j del: consume.simps(3) take_Suc_Cons)
  have res: "resolved (consume k (fst (generic_lazy_load (lazy_parse fs) (pre @ b # post) ending)))
       = pre @ [b]"
    by (simp add: run cons resolved_runs [OF ok] del: consume.simps)
  have em: "emitted (consume k (fst (generic_lazy_load (lazy_parse fs) (pre @ b # post) ending)))
       = take k (records (generic_lazy_load (lazy_parse fs) (pre @ b # post) ending))"
  proof -
    have lhs: "emitted (consume k (fst (generic_lazy_load (lazy_parse fs) (pre @ b # post) ending)))
        = emitted ?P @ take (Suc j) ?ds"
      by (simp only: run cons emitted_append emitted.simps emitted_map_Emit)
    have recs: "records (generic_lazy_load (lazy_parse fs) (pre @ b # post) ending)
        = emitted ?P @ (?ds @ emitted R)"
      by (simp add: records_def [of "generic_lazy_load (lazy_parse fs) (pre @ b # post) ending"] run)
    have n: "length (emitted ?P) = ?n" by (simp only: eP)
    have "take k (emitted ?P @ (?ds @ emitted R)) = emitted ?P @ take (k - ?n) (?ds @ emitted R)"
      using lo by (simp add: n)
    also have "take (k - ?n) (?ds @ emitted R) = take (Suc j) ?ds"
      using jle by (simp only: j take_append) simp
    finally show ?thesis by (simp only: lhs recs)
  qed
  from res em show ?thesis by simp
qed


theorem resolves_only_what_was_asked_for_witness:
  "raised (lazy_parse [''a.txt'' \<mapsto> ''x\<newline>y'', ''b.txt'' \<mapsto> ''z''] (from_path ''a.txt'' []))
     = None \<and>
   length (concat (map (\<lambda>b'. records (lazy_parse [''a.txt'' \<mapsto> ''x\<newline>y'', ''b.txt'' \<mapsto> ''z''] b'))
     [from_path ''a.txt'' []])) < 3 \<and>
   3 \<le> length (concat (map (\<lambda>b'. records (lazy_parse [''a.txt'' \<mapsto> ''x\<newline>y'', ''b.txt'' \<mapsto> ''z''] b'))
     [from_path ''a.txt'' []]))
     + length (records (lazy_parse [''a.txt'' \<mapsto> ''x\<newline>y'', ''b.txt'' \<mapsto> ''z'']
         (from_path ''b.txt'' []))) \<and>
   resolved (consume 3 (fst (generic_lazy_load
       (lazy_parse [''a.txt'' \<mapsto> ''x\<newline>y'', ''b.txt'' \<mapsto> ''z''])
       ([from_path ''a.txt'' []] @ from_path ''b.txt'' [] # [from_path ''c.txt'' []]) None)))
     = [from_path ''a.txt'' [], from_path ''b.txt'' []]"
proof -
  let ?fs = "[''a.txt'' \<mapsto> ''x\<newline>y'', ''b.txt'' \<mapsto> ''z'']"
  have ok: "\<forall>b' \<in> set [from_path ''a.txt'' []]. raised (lazy_parse ?fs b') = None"
    by (simp add: run_eval)
  have a: "length (records (lazy_parse ?fs (from_path ''a.txt'' []))) = 2"
    by (simp add: records_def lazy_parse_def as_bytes_io_def from_path_def run_eval)
  have b: "length (records (lazy_parse ?fs (from_path ''b.txt'' []))) = 1"
    by (simp add: records_def lazy_parse_def as_bytes_io_def from_path_def run_eval)
  have lo: "length (concat (map (\<lambda>b'. records (lazy_parse ?fs b')) [from_path ''a.txt'' []])) < 3"
    by (simp add: a)
  have hi: "3 \<le> length (concat (map (\<lambda>b'. records (lazy_parse ?fs b')) [from_path ''a.txt'' []]))
     + length (records (lazy_parse ?fs (from_path ''b.txt'' [])))"
    by (simp add: a b)
  from resolves_only_what_was_asked_for [OF ok lo hi, of "[from_path ''c.txt'' []]" None] ok lo hi
  show ?thesis by simp
qed

text \<open>
  C8 as stated fails when the first item yields no document: with an empty \<^verbatim>\<open>a.txt\<close>
  and \<^verbatim>\<open>b.txt\<close> holding \<^verbatim>\<open>x\<close>, the consumer of the first document has made the
  generator resolve both items.
\<close>

theorem first_record_resolves_later_item_counterexample:
  "resolved (consume 1 (fst (generic_lazy_load
       (lazy_parse [''a.txt'' \<mapsto> [], ''b.txt'' \<mapsto> ''x''])
       [from_path ''a.txt'' [], from_path ''b.txt'' []] None)))
     = [from_path ''a.txt'' [], from_path ''b.txt'' []] \<and>
   emitted (consume 1 (fst (generic_lazy_load
       (lazy_parse [''a.txt'' \<mapsto> [], ''b.txt'' \<mapsto> ''x''])
       [from_path ''a.txt'' [], from_path ''b.txt'' []] None)))
     = [\<lparr>page_content = ''x'',
         metadata = [(''line_number'', PyInt 1), (''source'', PyStr ''b.txt'')]\<rparr>]"
  by (simp add: lazy_parse_def as_bytes_io_def from_path_def run_eval)

end
